theory Spec2Isabelle
  imports Complex_Main "HOL-Library.Word" "HOL-Library.Multiset" "HOL-Library.Sublist"
    "HOL-Library.Code_Target_Nat"
begin

section \<open>Data model (lib/huffman.ts, lines 4-35)\<close>

text \<open>
  A symbol is what \<^verbatim>\<open>for (const char of text)\<close> yields: a string holding one Unicode
  code point (a lone surrogate code unit included).  It is modelled by the number of
  that code point; a text is the list of its symbols.  Concatenating the symbols of a
  text gives the text back, so two results with the same symbol list are the same
  JavaScript string.
\<close>

type_synonym symbol = nat

type_synonym byte = "8 word"

text \<open>
  A plain JavaScript object with one-symbol keys is an association list with distinct
  keys, kept in the order in which \<^verbatim>\<open>Object.keys\<close> and \<^verbatim>\<open>JSON.stringify\<close>
  enumerate it: the array-index keys (here the digits \<^verbatim>\<open>"0"\<close> to \<^verbatim>\<open>"9"\<close>) in
  ascending numeric order, then every other key in the order of its creation.
\<close>

type_synonym FrequencyMap = "(symbol \<times> nat) list"

type_synonym CodeMap = "(symbol \<times> string) list"

datatype HuffmanNode =
  HuffmanNode (char: "symbol option") (freq: nat)
    (left: "HuffmanNode option") (right: "HuffmanNode option") (node_id: string)

record CompressionResult =
  compressedData :: "byte list"
  codeMap :: CodeMap
  originalSize :: nat
  compressedSize :: nat
  compressionRatio :: real
  tree :: "HuffmanNode option"
  frequencyMap :: FrequencyMap
  paddingBits :: nat

record DecompressionResult =
  decompressedText :: "symbol list"
  success :: bool
  error :: "string option"

text \<open>An exception that leaves a function which has no handler of its own.\<close>

datatype exception = TypeError

section \<open>JavaScript objects and strings\<close>

definition isArrayIndex :: "symbol \<Rightarrow> bool" where
  "isArrayIndex k = (48 \<le> k \<and> k \<le> 57)"

fun insertIndexKey :: "symbol \<Rightarrow> 'v \<Rightarrow> (symbol \<times> 'v) list \<Rightarrow> (symbol \<times> 'v) list" where
  "insertIndexKey k v [] = [(k, v)]"
| "insertIndexKey k v (p # ps) =
     (if isArrayIndex (fst p) \<and> fst p < k then p # insertIndexKey k v ps
      else (k, v) # p # ps)"

text \<open>\<^verbatim>\<open>obj[k] = v\<close>: an existing property keeps its place; a new one is created.\<close>

definition obj_set :: "(symbol \<times> 'v) list \<Rightarrow> symbol \<Rightarrow> 'v \<Rightarrow> (symbol \<times> 'v) list" where
  "obj_set obj k v =
     (if k \<in> set (map fst obj) then map (\<lambda>p. if fst p = k then (k, v) else p) obj
      else if isArrayIndex k then insertIndexKey k v obj
      else obj @ [(k, v)])"

text \<open>\<^verbatim>\<open>obj[k]\<close>, with \<open>None\<close> for \<^verbatim>\<open>undefined\<close>.\<close>

definition obj_get :: "(symbol \<times> 'v) list \<Rightarrow> symbol \<Rightarrow> 'v option" where
  "obj_get obj k = map_of obj k"

definition obj_keys :: "(symbol \<times> 'v) list \<Rightarrow> symbol list" where
  "obj_keys obj = map fst obj"

definition digitChar :: "nat \<Rightarrow> char" where
  "digitChar d = char_of (48 + d)"

text \<open>\<^verbatim>\<open>n.toString(radix)\<close> for a natural number and a radix from 2 to 10.\<close>

fun toStringRadix :: "nat \<Rightarrow> nat \<Rightarrow> string" where
  "toStringRadix radix n =
     (if n < radix \<or> radix < 2 then [digitChar n]
      else toStringRadix radix (n div radix) @ [digitChar (n mod radix)])"

declare toStringRadix.simps [simp del]

definition padStart :: "nat \<Rightarrow> char \<Rightarrow> string \<Rightarrow> string" where
  "padStart n c s = replicate (n - length s) c @ s"

definition padEnd :: "nat \<Rightarrow> char \<Rightarrow> string \<Rightarrow> string" where
  "padEnd n c s = s @ replicate (n - length s) c"

text \<open>\<^verbatim>\<open>s.slice(a, b)\<close> for \<open>0 \<le> a\<close> and \<open>0 \<le> b\<close>.\<close>

definition slice :: "nat \<Rightarrow> nat \<Rightarrow> 'a list \<Rightarrow> 'a list" where
  "slice a b s = take (b - a) (drop a s)"

definition isBinaryDigit :: "char \<Rightarrow> bool" where
  "isBinaryDigit c = (c = CHR ''0'' \<or> c = CHR ''1'')"

text \<open>
  \<^verbatim>\<open>parseInt(s, 2)\<close> on a string without leading white space or sign: the value of
  the longest prefix of binary digits, \<open>None\<close> (\<^verbatim>\<open>NaN\<close>) when that prefix is empty.
\<close>

definition parseInt2 :: "string \<Rightarrow> nat option" where
  "parseInt2 s =
     (let ds = takeWhile isBinaryDigit s
      in if ds = [] then None
         else Some (foldl (\<lambda>a c. 2 * a + (if c = CHR ''1'' then 1 else 0)) 0 ds))"

text \<open>Storing a number into a \<^verbatim>\<open>Uint8Array\<close>: modulo 256, \<^verbatim>\<open>NaN\<close> as 0.\<close>

definition toUint8 :: "nat option \<Rightarrow> byte" where
  "toUint8 v = (case v of None \<Rightarrow> 0 | Some n \<Rightarrow> of_nat n)"

text \<open>
  \<^verbatim>\<open>new TextEncoder().encode(s)\<close>: the UTF-8 bytes of the code points of \<open>s\<close>,
  a lone surrogate being encoded as U+FFFD.
\<close>

definition utf8EncodeCodePoint :: "symbol \<Rightarrow> nat list" where
  "utf8EncodeCodePoint c0 =
     (let c = (if 55296 \<le> c0 \<and> c0 \<le> 57343 then 65533 else c0)
      in if c < 128 then [c]
         else if c < 2048 then [192 + c div 64, 128 + c mod 64]
         else if c < 65536 then [224 + c div 4096, 128 + c div 64 mod 64, 128 + c mod 64]
         else [240 + c div 262144, 128 + c div 4096 mod 64, 128 + c div 64 mod 64,
               128 + c mod 64])"

definition textEncode :: "symbol list \<Rightarrow> byte list" where
  "textEncode s = map of_nat (concat (map utf8EncodeCodePoint s))"

section \<open>MinHeap (lines 38-88)\<close>

text \<open>
  The private array \<^verbatim>\<open>heap\<close> is the state of the queue.  \<^verbatim>\<open>bubbleUp\<close> and
  \<^verbatim>\<open>bubbleDown\<close> are private and are called with an index inside the array only.
\<close>

definition swap :: "'a list \<Rightarrow> nat \<Rightarrow> nat \<Rightarrow> 'a list" where
  "swap h i j = h[i := h ! j, j := h ! i]"

function bubbleUp :: "HuffmanNode list \<Rightarrow> nat \<Rightarrow> HuffmanNode list" where
  "bubbleUp h index =
     (if index > 0 then
        (let parentIndex = (index - 1) div 2
         in if freq (h ! parentIndex) \<le> freq (h ! index) then h
            else bubbleUp (swap h parentIndex index) parentIndex)
      else h)"
  by pat_completeness auto
termination
  by (relation "measure (\<lambda>(h, index). index)") auto

declare bubbleUp.simps [simp del]

definition smallestOf :: "HuffmanNode list \<Rightarrow> nat \<Rightarrow> nat" where
  "smallestOf h index =
     (let leftChild = 2 * index + 1;
          rightChild = 2 * index + 2;
          smallest = index;
          smallest = (if leftChild < length h \<and> freq (h ! leftChild) < freq (h ! smallest)
                      then leftChild else smallest);
          smallest = (if rightChild < length h \<and> freq (h ! rightChild) < freq (h ! smallest)
                      then rightChild else smallest)
      in smallest)"

lemma smallestOf_cases:
  "smallestOf h i = i \<or> smallestOf h i = 2 * i + 1 \<or> smallestOf h i = 2 * i + 2"
  by (simp add: smallestOf_def Let_def)

lemma smallestOf_less: "smallestOf h i \<noteq> i \<Longrightarrow> smallestOf h i < length h"
  by (auto simp: smallestOf_def Let_def split: if_splits)

lemma length_swap [simp]: "length (swap h i j) = length h"
  by (simp add: swap_def)

function bubbleDown :: "HuffmanNode list \<Rightarrow> nat \<Rightarrow> HuffmanNode list" where
  "bubbleDown h index =
     (let smallest = smallestOf h index
      in if smallest = index then h
         else bubbleDown (swap h smallest index) smallest)"
  by pat_completeness auto
termination
proof (relation "measure (\<lambda>(h, index). length h - index)")
  show "wf (measure (\<lambda>(h, index). length h - index))" by simp
next
  fix h :: "HuffmanNode list" and index x
  assume x: "x = smallestOf h index" and ne: "x \<noteq> index"
  from ne x have "x < length h" using smallestOf_less by blast
  moreover from ne x have "index < x" using smallestOf_cases [of h index] by auto
  ultimately show "((swap h x index, x), (h, index)) \<in> measure (\<lambda>(h, index). length h - index)"
    by simp
qed

declare bubbleDown.simps [simp del]

definition insert_heap :: "HuffmanNode list \<Rightarrow> HuffmanNode \<Rightarrow> HuffmanNode list" where
  "insert_heap h node = bubbleUp (h @ [node]) (length (h @ [node]) - 1)"

definition extractMin :: "HuffmanNode list \<Rightarrow> HuffmanNode option \<times> HuffmanNode list" where
  "extractMin h =
     (if length h = 0 then (None, h)
      else if length h = 1 then (Some (last h), butlast h)
      else (let min = h ! 0;
                h1 = (butlast h)[0 := last h];
                h2 = bubbleDown h1 0
            in (Some min, h2)))"

definition size_heap :: "HuffmanNode list \<Rightarrow> nat" where
  "size_heap h = length h"

lemma length_bubbleUp [simp]: "length (bubbleUp h i) = length h"
  by (induction h i rule: bubbleUp.induct) (subst bubbleUp.simps, simp add: Let_def)

lemma length_bubbleDown [simp]: "length (bubbleDown h i) = length h"
  by (induction h i rule: bubbleDown.induct) (subst bubbleDown.simps, simp add: Let_def)

lemma length_insert_heap [simp]: "length (insert_heap h n) = Suc (length h)"
  by (simp add: insert_heap_def)

lemma length_extractMin [simp]: "length (snd (extractMin h)) = length h - 1"
  by (simp add: extractMin_def Let_def)

section \<open>Node identifiers (lines 90-94)\<close>

text \<open>
  The module-level variable \<^verbatim>\<open>nodeIdCounter\<close> is global state: every function that
  reads or writes it takes its value and returns the new one.
\<close>

definition generateNodeId :: "nat \<Rightarrow> string \<times> nat" where
  "generateNodeId nodeIdCounter = (''node_'' @ toStringRadix 10 nodeIdCounter, nodeIdCounter + 1)"

section \<open>Step 1: character frequencies (lines 97-103)\<close>

definition calculateFrequencies :: "symbol list \<Rightarrow> FrequencyMap" where
  "calculateFrequencies text =
     foldl (\<lambda>frequencies c.
              obj_set frequencies c
                ((case obj_get frequencies c of None \<Rightarrow> 0 | Some n \<Rightarrow> n) + 1))
       [] text"

section \<open>Step 2: the Huffman tree (lines 106-154)\<close>

text \<open>The first loop: one leaf per key, inserted in the order of \<^verbatim>\<open>Object.keys\<close>.\<close>

fun insertLeaves ::
  "FrequencyMap \<Rightarrow> symbol list \<Rightarrow> HuffmanNode list \<Rightarrow> nat \<Rightarrow> HuffmanNode list \<times> nat" where
  "insertLeaves frequencies [] heap ctr = (heap, ctr)"
| "insertLeaves frequencies (c # chars) heap ctr =
     (let (i, ctr1) = generateNodeId ctr;
          node = HuffmanNode (Some c)
                   (case obj_get frequencies c of None \<Rightarrow> 0 | Some n \<Rightarrow> n) None None i
      in insertLeaves frequencies chars (insert_heap heap node) ctr1)"

text \<open>
  The second loop.  \<^verbatim>\<open>heap.extractMin()!\<close> asserts a node: the queue holds at least
  two when the body runs.
\<close>

function mergeLoop :: "HuffmanNode list \<Rightarrow> nat \<Rightarrow> HuffmanNode list \<times> nat" where
  "mergeLoop heap ctr =
     (if size_heap heap > 1 then
        (let (l, heap1) = extractMin heap;
             (r, heap2) = extractMin heap1;
             (i, ctr1) = generateNodeId ctr;
             parent = HuffmanNode None (freq (the l) + freq (the r)) l r i
         in mergeLoop (insert_heap heap2 parent) ctr1)
      else (heap, ctr))"
  by pat_completeness auto
termination
proof (relation "measure (\<lambda>(heap, ctr). length heap)")
  show "wf (measure (\<lambda>(heap, ctr). length heap))" by simp
next
  fix heap :: "HuffmanNode list" and ctr x l heap1 y r heap2 z i ctr1 parent
  assume big: "1 < size_heap heap" and x: "x = extractMin heap" "(l, heap1) = x"
    and y: "y = extractMin heap1" "(r, heap2) = y"
  from x have "heap1 = snd (extractMin heap)" by (metis snd_conv)
  moreover from y have "heap2 = snd (extractMin heap1)" by (metis snd_conv)
  ultimately have "length heap2 = length heap - 1 - 1" by simp
  with big show "((insert_heap heap2 parent, ctr1), (heap, ctr)) \<in> measure (\<lambda>(heap, ctr). length heap)"
    by (simp add: size_heap_def)
qed

declare mergeLoop.simps [simp del]

definition buildHuffmanTree :: "nat \<Rightarrow> FrequencyMap \<Rightarrow> HuffmanNode option \<times> nat" where
  "buildHuffmanTree nodeIdCounter frequencies =
     (let ctr = 0;
          chars = obj_keys frequencies
      in if length chars = 0 then (None, ctr)
         else
           (let (heap, ctr) = insertLeaves frequencies chars [] ctr
            in if size_heap heap = 1 then
                 (let (node, heap) = extractMin heap;
                      (i, ctr) = generateNodeId ctr
                  in (Some (HuffmanNode None (freq (the node)) node None i), ctr))
               else
                 (let (heap, ctr) = mergeLoop heap ctr
                  in (fst (extractMin heap), ctr))))"

section \<open>Step 3: the codes (lines 157-174)\<close>

text \<open>The closure \<^verbatim>\<open>traverse\<close> updates the object \<^verbatim>\<open>codes\<close>; here it returns it.\<close>

fun traverse :: "HuffmanNode \<Rightarrow> string \<Rightarrow> CodeMap \<Rightarrow> CodeMap" where
  "traverse (HuffmanNode ch f l r i) code codes =
     (case ch of
        Some c \<Rightarrow> obj_set codes c (if code = [] then ''0'' else code)
      | None \<Rightarrow>
          (let codes1 = (case l of Some lnode \<Rightarrow> traverse lnode (code @ ''0'') codes | None \<Rightarrow> codes)
           in (case r of Some rnode \<Rightarrow> traverse rnode (code @ ''1'') codes1 | None \<Rightarrow> codes1)))"

definition generateCodes :: "HuffmanNode option \<Rightarrow> CodeMap" where
  "generateCodes t = (case t of None \<Rightarrow> [] | Some node \<Rightarrow> traverse node [] [])"

section \<open>Step 4: compression (lines 177-226)\<close>

text \<open>
  \<^verbatim>\<open>binaryString += codeMap[char]\<close>: a symbol without a code would append the text
  of \<^verbatim>\<open>undefined\<close>.
\<close>

definition encodeText :: "CodeMap \<Rightarrow> symbol list \<Rightarrow> string" where
  "encodeText codes text =
     concat (map (\<lambda>c. case obj_get codes c of None \<Rightarrow> ''undefined'' | Some code \<Rightarrow> code) text)"

definition packBytes :: "string \<Rightarrow> byte list" where
  "packBytes binaryString =
     map (\<lambda>i. toUint8 (parseInt2 (slice (i * 8) ((i + 1) * 8) binaryString)))
       [0 ..< length binaryString div 8]"

definition compress :: "nat \<Rightarrow> symbol list \<Rightarrow> CompressionResult \<times> nat" where
  "compress nodeIdCounter text =
     (if length text = 0 then
        (\<lparr>compressedData = [], codeMap = [], originalSize = 0, compressedSize = 0,
          compressionRatio = 0, tree = None, frequencyMap = [], paddingBits = 0\<rparr>,
         nodeIdCounter)
      else
        (let originalSize = length (textEncode text);
             frequencyMap = calculateFrequencies text;
             (tree, ctr) = buildHuffmanTree nodeIdCounter frequencyMap;
             codeMap = generateCodes tree;
             binaryString = encodeText codeMap text;
             paddingBits = (8 - (length binaryString mod 8)) mod 8;
             binaryString = padEnd (length binaryString + paddingBits) CHR ''0'' binaryString;
             byteArray = packBytes binaryString;
             compressedSize = length byteArray;
             compressionRatio =
               (if originalSize > 0
                then ((real originalSize - real compressedSize) / real originalSize) * 100
                else 0)
         in (\<lparr>compressedData = byteArray, codeMap = codeMap, originalSize = originalSize,
              compressedSize = compressedSize, compressionRatio = compressionRatio,
              tree = tree, frequencyMap = frequencyMap, paddingBits = paddingBits\<rparr>,
             ctr)))"

section \<open>Step 5: decompression (lines 229-269)\<close>

definition bytesToBinaryString :: "byte list \<Rightarrow> string" where
  "bytesToBinaryString data =
     concat (map (\<lambda>b. padStart 8 CHR ''0'' (toStringRadix 2 (unat b))) data)"

text \<open>
  The decoding loop over the bits, with the variables \<^verbatim>\<open>currentNode\<close> and
  \<^verbatim>\<open>result\<close>.  Reading \<^verbatim>\<open>.char\<close> of a child that is \<^verbatim>\<open>null\<close> throws.
\<close>

fun decodeLoop ::
  "HuffmanNode \<Rightarrow> HuffmanNode \<Rightarrow> string \<Rightarrow> symbol list \<Rightarrow> exception + symbol list" where
  "decodeLoop t currentNode [] result = Inr result"
| "decodeLoop t currentNode (b # bits) result =
     (if left currentNode \<noteq> None \<and> right currentNode = None
         \<and> char (the (left currentNode)) \<noteq> None
      then decodeLoop t currentNode bits (result @ [the (char (the (left currentNode)))])
      else
        (case (if b = CHR ''0'' then left currentNode else right currentNode) of
           None \<Rightarrow> Inl TypeError
         | Some next \<Rightarrow>
             (case char next of
                Some c \<Rightarrow> decodeLoop t t bits (result @ [c])
              | None \<Rightarrow> decodeLoop t next bits result)))"

definition decompress ::
  "byte list \<Rightarrow> HuffmanNode option \<Rightarrow> nat \<Rightarrow> exception + DecompressionResult" where
  "decompress data t padding =
     (case t of
        None \<Rightarrow> Inr \<lparr>decompressedText = [], success = True, error = None\<rparr>
      | Some node \<Rightarrow>
          if length data = 0
          then Inr \<lparr>decompressedText = [], success = True, error = None\<rparr>
          else
            (let binaryString = bytesToBinaryString data;
                 binaryString =
                   (if padding > 0
                    then take (length binaryString - padding) binaryString
                    else binaryString)
             in (case decodeLoop node node binaryString [] of
                   Inl e \<Rightarrow> Inl e
                 | Inr result \<Rightarrow>
                     Inr \<lparr>decompressedText = result, success = True, error = None\<rparr>)))"

section \<open>The container (lines 272-320)\<close>

text \<open>
  The record that \<^verbatim>\<open>createCompressedFile\<close> serialises, and the object that
  \<^verbatim>\<open>parseCompressedFile\<close> returns; the fields carry the names of the source with
  a prefix, since a field name belongs to one record type only.
\<close>

record Metadata =
  metadata_codeMap :: CodeMap
  metadata_paddingBits :: nat
  metadata_frequencyMap :: FrequencyMap

record ParsedFile =
  parsed_compressedData :: "byte list"
  parsed_codeMap :: CodeMap
  parsed_paddingBits :: nat
  parsed_frequencyMap :: FrequencyMap

text \<open>
  \<^verbatim>\<open>new Uint8Array(new Uint32Array([n]).buffer)\<close> on a little-endian host: the four
  bytes of \<open>n\<close> modulo \<open>2\<^sup>3\<^sup>2\<close>, least significant first.
\<close>

definition uint32Bytes :: "nat \<Rightarrow> byte list" where
  "uint32Bytes n =
     (let m = n mod 2 ^ 32
      in [of_nat (m mod 256), of_nat (m div 256 mod 256),
          of_nat (m div 65536 mod 256), of_nat (m div 16777216 mod 256)])"

text \<open>\<^verbatim>\<open>view.getUint32(0, true)\<close> on a buffer of at least four bytes.\<close>

definition getUint32 :: "byte list \<Rightarrow> nat" where
  "getUint32 data =
     unat (data ! 0) + 256 * unat (data ! 1) + 65536 * unat (data ! 2)
       + 16777216 * unat (data ! 3)"

text \<open>
  The platform's codec of the metadata is a parameter of both functions:
  \<open>stringify\<close> stands for \<^verbatim>\<open>new TextEncoder().encode(JSON.stringify(metadata))\<close>,
  and \<open>parse\<close> for \<^verbatim>\<open>JSON.parse(new TextDecoder().decode(metadataBytes))\<close>
  followed by the reads of the three fields, with \<open>None\<close> when one of them throws.
  The \<^verbatim>\<open>Blob\<close> is modelled by its bytes.
\<close>

definition createCompressedFile ::
  "(Metadata \<Rightarrow> byte list) \<Rightarrow> CompressionResult \<Rightarrow> byte list" where
  "createCompressedFile stringify result =
     (let metadata = \<lparr>metadata_codeMap = codeMap result,
                       metadata_paddingBits = paddingBits result,
                       metadata_frequencyMap = frequencyMap result\<rparr>;
          metadataBytes = stringify metadata;
          metadataLength = uint32Bytes (length metadataBytes)
      in metadataLength @ metadataBytes @ compressedData result)"

text \<open>
  Every exception inside the \<^verbatim>\<open>try\<close> block gives \<^verbatim>\<open>null\<close>: the
  \<^verbatim>\<open>RangeError\<close> of \<^verbatim>\<open>getUint32\<close> on fewer than four bytes, the
  \<^verbatim>\<open>RangeError\<close> of the \<^verbatim>\<open>Uint8Array\<close> view that would reach past the buffer,
  and what the parser throws.
\<close>

definition parseCompressedFile ::
  "(byte list \<Rightarrow> Metadata option) \<Rightarrow> byte list \<Rightarrow> ParsedFile option" where
  "parseCompressedFile parse data =
     (if length data < 4 then None
      else
        (let metadataLength = getUint32 data
         in if length data < 4 + metadataLength then None
            else
              (let metadataBytes = take metadataLength (drop 4 data)
               in case parse metadataBytes of
                    None \<Rightarrow> None
                  | Some metadata \<Rightarrow>
                      (let rest = drop (4 + metadataLength) data
                       in Some \<lparr>parsed_compressedData = rest,
                                 parsed_codeMap = metadata_codeMap metadata,
                                 parsed_paddingBits = metadata_paddingBits metadata,
                                 parsed_frequencyMap = metadata_frequencyMap metadata\<rparr>))))"

section \<open>The platform's text codec and JSON\<close>

text \<open>
  \<^verbatim>\<open>TextEncoder\<close>, \<^verbatim>\<open>TextDecoder\<close>, \<^verbatim>\<open>JSON.stringify\<close> and \<^verbatim>\<open>JSON.parse\<close>
  belong to the host, not to the repository.  This section models them after the
  Encoding Standard and ECMA-262, as far as the container needs them; a string is the
  list of its code points.
\<close>

definition ascii :: "string \<Rightarrow> symbol list" where
  "ascii s = map of_char s"

subsection \<open>\<^verbatim>\<open>new TextDecoder().decode\<close>\<close>

text \<open>
  The UTF-8 decoder of the Encoding Standard in its default mode: an ill-formed
  sequence gives U+FFFD and decoding resumes at the byte that broke it.
\<close>

fun utf8Decode :: "nat list \<Rightarrow> symbol list" where
  "utf8Decode [] = []"
| "utf8Decode (b # bs) =
     (if b < 128 then b # utf8Decode bs
      else if 194 \<le> b \<and> b \<le> 223 then
        (case bs of
           [] \<Rightarrow> [65533]
         | c1 # bs1 \<Rightarrow>
             if 128 \<le> c1 \<and> c1 \<le> 191
             then ((b - 192) * 64 + (c1 - 128)) # utf8Decode bs1
             else 65533 # utf8Decode bs)
      else if 224 \<le> b \<and> b \<le> 239 then
        (case bs of
           [] \<Rightarrow> [65533]
         | c1 # bs1 \<Rightarrow>
             if (if b = 224 then 160 else 128) \<le> c1 \<and> c1 \<le> (if b = 237 then 159 else 191)
             then
               (case bs1 of
                  [] \<Rightarrow> [65533]
                | c2 # bs2 \<Rightarrow>
                    if 128 \<le> c2 \<and> c2 \<le> 191
                    then ((b - 224) * 4096 + (c1 - 128) * 64 + (c2 - 128)) # utf8Decode bs2
                    else 65533 # utf8Decode bs1)
             else 65533 # utf8Decode bs)
      else if 240 \<le> b \<and> b \<le> 244 then
        (case bs of
           [] \<Rightarrow> [65533]
         | c1 # bs1 \<Rightarrow>
             if (if b = 240 then 144 else 128) \<le> c1 \<and> c1 \<le> (if b = 244 then 143 else 191)
             then
               (case bs1 of
                  [] \<Rightarrow> [65533]
                | c2 # bs2 \<Rightarrow>
                    if 128 \<le> c2 \<and> c2 \<le> 191
                    then
                      (case bs2 of
                         [] \<Rightarrow> [65533]
                       | c3 # bs3 \<Rightarrow>
                           if 128 \<le> c3 \<and> c3 \<le> 191
                           then ((b - 240) * 262144 + (c1 - 128) * 4096 + (c2 - 128) * 64
                                   + (c3 - 128)) # utf8Decode bs3
                           else 65533 # utf8Decode bs2)
                    else 65533 # utf8Decode bs1)
             else 65533 # utf8Decode bs)
      else 65533 # utf8Decode bs)"

text \<open>A byte order mark at the start of the text is dropped.\<close>

definition textDecode :: "byte list \<Rightarrow> symbol list" where
  "textDecode bytes =
     (case utf8Decode (map unat bytes) of
        [] \<Rightarrow> []
      | c # cs \<Rightarrow> if c = 65279 then cs else c # cs)"

subsection \<open>\<^verbatim>\<open>JSON.stringify\<close> of the metadata\<close>

definition hexDigit :: "nat \<Rightarrow> symbol" where
  "hexDigit d = (if d < 10 then 48 + d else 87 + d)"

definition unicodeEscape :: "symbol \<Rightarrow> symbol list" where
  "unicodeEscape c =
     [92, 117, hexDigit (c div 4096), hexDigit (c div 256 mod 16),
      hexDigit (c div 16 mod 16), hexDigit (c mod 16)]"

text \<open>
  \<^verbatim>\<open>QuoteJSONString\<close>, one code point at a time: the short escapes, a
  \<^verbatim>\<open>\uXXXX\<close> escape for the other control characters and for a lone surrogate,
  and every other code point as it is.
\<close>

definition quoteCodePoint :: "symbol \<Rightarrow> symbol list" where
  "quoteCodePoint c =
     (if c = 8 then [92, 98]
      else if c = 9 then [92, 116]
      else if c = 10 then [92, 110]
      else if c = 12 then [92, 102]
      else if c = 13 then [92, 114]
      else if c = 34 then [92, 34]
      else if c = 92 then [92, 92]
      else if c < 32 \<or> (55296 \<le> c \<and> c \<le> 57343) then unicodeEscape c
      else [c])"

definition quoteJSONString :: "symbol list \<Rightarrow> symbol list" where
  "quoteJSONString s = [34] @ concat (map quoteCodePoint s) @ [34]"

fun joinWith :: "'a list \<Rightarrow> 'a list list \<Rightarrow> 'a list" where
  "joinWith sep [] = []"
| "joinWith sep [x] = x"
| "joinWith sep (x # y # ys) = x @ sep @ joinWith sep (y # ys)"

text \<open>
  \<^verbatim>\<open>SerializeJSONObject\<close> without indentation: the properties in the order of
  their enumeration.
\<close>

definition serializeJSONObject :: "('v \<Rightarrow> symbol list) \<Rightarrow> (symbol \<times> 'v) list \<Rightarrow> symbol list" where
  "serializeJSONObject ser obj =
     ascii ''{''
       @ joinWith (ascii '','') (map (\<lambda>(k, v). quoteJSONString [k] @ ascii '':'' @ ser v) obj)
       @ ascii ''}''"

text \<open>A count is a number below \<open>10\<^sup>2\<^sup>1\<close>, which is written in plain decimal digits.\<close>

definition serializeNumber :: "nat \<Rightarrow> symbol list" where
  "serializeNumber n = ascii (toStringRadix 10 n)"

definition jsonStringify :: "Metadata \<Rightarrow> symbol list" where
  "jsonStringify metadata =
     ascii ''{'' @ quoteJSONString (ascii ''codeMap'') @ ascii '':''
       @ serializeJSONObject (\<lambda>code. quoteJSONString (ascii code)) (metadata_codeMap metadata)
       @ ascii '','' @ quoteJSONString (ascii ''paddingBits'') @ ascii '':''
       @ serializeNumber (metadata_paddingBits metadata)
       @ ascii '','' @ quoteJSONString (ascii ''frequencyMap'') @ ascii '':''
       @ serializeJSONObject serializeNumber (metadata_frequencyMap metadata)
       @ ascii ''}''"

text \<open>\<^verbatim>\<open>new TextEncoder().encode(JSON.stringify(metadata))\<close>.\<close>

definition stringifyMetadata :: "Metadata \<Rightarrow> byte list" where
  "stringifyMetadata metadata = textEncode (jsonStringify metadata)"

subsection \<open>\<^verbatim>\<open>JSON.parse\<close> of the metadata\<close>

text \<open>
  The parser covers the JSON texts of the shape that \<^verbatim>\<open>JSON.stringify\<close> gives a
  metadata record: no white space between the tokens, the three fields in the order
  above, one-symbol keys, numbers that are natural numbers in decimal digits, and code
  strings of characters below 256.  On such a text \<open>None\<close> is the
  \<^verbatim>\<open>SyntaxError\<close> of \<^verbatim>\<open>JSON.parse\<close>.  Other texts are outside the model; the
  parser gives \<open>None\<close> for them as well, and nothing is stated about them.
\<close>

definition hexValue :: "symbol \<Rightarrow> nat option" where
  "hexValue c =
     (if 48 \<le> c \<and> c \<le> 57 then Some (c - 48)
      else if 97 \<le> c \<and> c \<le> 102 then Some (c - 87)
      else if 65 \<le> c \<and> c \<le> 70 then Some (c - 55)
      else None)"

definition unescape :: "symbol \<Rightarrow> symbol option" where
  "unescape e =
     (if e = 34 then Some 34
      else if e = 92 then Some 92
      else if e = 47 then Some 47
      else if e = 98 then Some 8
      else if e = 102 then Some 12
      else if e = 110 then Some 10
      else if e = 114 then Some 13
      else if e = 116 then Some 9
      else None)"

text \<open>The characters of a string literal after its opening quote, up to the closing one.\<close>

fun parseStringChars :: "symbol list \<Rightarrow> (symbol list \<times> symbol list) option" where
  "parseStringChars [] = None"
| "parseStringChars (c # cs) =
     (if c = 34 then Some ([], cs)
      else if c = 92 then
        (case cs of
           [] \<Rightarrow> None
         | e # cs1 \<Rightarrow>
             if e = 117 then
               (case cs1 of
                  h1 # h2 # h3 # h4 # cs2 \<Rightarrow>
                    (case (hexValue h1, hexValue h2, hexValue h3, hexValue h4) of
                       (Some d1, Some d2, Some d3, Some d4) \<Rightarrow>
                         (case parseStringChars cs2 of
                            None \<Rightarrow> None
                          | Some (s, rest) \<Rightarrow>
                              Some ((d1 * 4096 + d2 * 256 + d3 * 16 + d4) # s, rest))
                     | _ \<Rightarrow> None)
                | _ \<Rightarrow> None)
             else
               (case unescape e of
                  None \<Rightarrow> None
                | Some v \<Rightarrow>
                    (case parseStringChars cs1 of
                       None \<Rightarrow> None
                     | Some (s, rest) \<Rightarrow> Some (v # s, rest))))
      else if c < 32 then None
      else
        (case parseStringChars cs of
           None \<Rightarrow> None
         | Some (s, rest) \<Rightarrow> Some (c # s, rest)))"

text \<open>Two escapes that form a surrogate pair are one code point of the string.\<close>

fun combineSurrogates :: "symbol list \<Rightarrow> symbol list" where
  "combineSurrogates (h # l # cs) =
     (if 55296 \<le> h \<and> h \<le> 56319 \<and> 56320 \<le> l \<and> l \<le> 57343
      then (65536 + (h - 55296) * 1024 + (l - 56320)) # combineSurrogates cs
      else h # combineSurrogates (l # cs))"
| "combineSurrogates cs = cs"

definition parseJSONString :: "symbol list \<Rightarrow> (symbol list \<times> symbol list) option" where
  "parseJSONString cs =
     (case cs of
        [] \<Rightarrow> None
      | c # cs1 \<Rightarrow>
          if c = 34 then
            (case parseStringChars cs1 of
               None \<Rightarrow> None
             | Some (s, rest) \<Rightarrow> Some (combineSurrogates s, rest))
          else None)"

definition isDigit :: "symbol \<Rightarrow> bool" where
  "isDigit c = (48 \<le> c \<and> c \<le> 57)"

text \<open>
  A number: decimal digits without a leading zero.  A sign, a fraction or an exponent
  is outside the model.
\<close>

definition parseJSONNumber :: "symbol list \<Rightarrow> (nat \<times> symbol list) option" where
  "parseJSONNumber cs =
     (let ds = takeWhile isDigit cs;
          rest = dropWhile isDigit cs
      in if ds = [] then None
         else if hd ds = 48 \<and> length ds > 1 then None
         else if rest \<noteq> [] \<and> (hd rest = 46 \<or> hd rest = 101 \<or> hd rest = 69) then None
         else Some (foldl (\<lambda>a d. 10 * a + (d - 48)) 0 ds, rest))"

text \<open>
  The members of an object after its opening brace, with \<open>value\<close> the parser of a
  member's value.  A member takes at least one character, so the loop ends.
\<close>

function parseMembers ::
  "(symbol list \<Rightarrow> ('v \<times> symbol list) option) \<Rightarrow> symbol list
     \<Rightarrow> ((symbol list \<times> 'v) list \<times> symbol list) option" where
  "parseMembers value cs =
     (case parseJSONString cs of
        None \<Rightarrow> None
      | Some (k, cs1) \<Rightarrow>
          (case cs1 of
             [] \<Rightarrow> None
           | c # cs2 \<Rightarrow>
               if c \<noteq> 58 then None
               else
                 (case value cs2 of
                    None \<Rightarrow> None
                  | Some (v, cs3) \<Rightarrow>
                      (case cs3 of
                         [] \<Rightarrow> None
                       | d # cs4 \<Rightarrow>
                           if d = 125 then Some ([(k, v)], cs4)
                           else if d = 44 \<and> length cs4 < length cs then
                             (case parseMembers value cs4 of
                                None \<Rightarrow> None
                              | Some (ms, rest) \<Rightarrow> Some ((k, v) # ms, rest))
                           else None))))"
  by pat_completeness auto
termination
  by (relation "measure (\<lambda>(value, cs). length cs)") auto

declare parseMembers.simps [simp del]

definition parseJSONObject ::
  "(symbol list \<Rightarrow> ('v \<times> symbol list) option) \<Rightarrow> symbol list
     \<Rightarrow> ((symbol list \<times> 'v) list \<times> symbol list) option" where
  "parseJSONObject value cs =
     (case cs of
        [] \<Rightarrow> None
      | c # cs1 \<Rightarrow>
          if c \<noteq> 123 then None
          else
            (case cs1 of
               [] \<Rightarrow> None
             | d # cs2 \<Rightarrow> if d = 125 then Some ([], cs2) else parseMembers value cs1))"

text \<open>
  The object that the parser builds: the properties are created in the order of the
  text, a repeated key overwriting its value.  Keys of one symbol only.
\<close>

definition toObject :: "(symbol list \<times> 'v) list \<Rightarrow> (symbol \<times> 'v) list option" where
  "toObject ms =
     (if list_all (\<lambda>(k, v). length k = 1) ms
      then Some (foldl (\<lambda>obj (k, v). obj_set obj (hd k) v) [] ms)
      else None)"

definition parseCode :: "symbol list \<Rightarrow> (string \<times> symbol list) option" where
  "parseCode cs =
     (case parseJSONString cs of
        None \<Rightarrow> None
      | Some (s, rest) \<Rightarrow>
          if list_all (\<lambda>c. c < 256) s then Some (map char_of s, rest) else None)"

definition expect :: "symbol list \<Rightarrow> symbol list \<Rightarrow> symbol list option" where
  "expect token cs =
     (if take (length token) cs = token then Some (drop (length token) cs) else None)"

definition parseMetadata :: "symbol list \<Rightarrow> Metadata option" where
  "parseMetadata cs =
     (case expect (ascii ''{'' @ quoteJSONString (ascii ''codeMap'') @ ascii '':'') cs of
        None \<Rightarrow> None
      | Some cs1 \<Rightarrow>
     (case parseJSONObject parseCode cs1 of
        None \<Rightarrow> None
      | Some (codeMembers, cs2) \<Rightarrow>
     (case expect (ascii '','' @ quoteJSONString (ascii ''paddingBits'') @ ascii '':'') cs2 of
        None \<Rightarrow> None
      | Some cs3 \<Rightarrow>
     (case parseJSONNumber cs3 of
        None \<Rightarrow> None
      | Some (padding, cs4) \<Rightarrow>
     (case expect (ascii '','' @ quoteJSONString (ascii ''frequencyMap'') @ ascii '':'') cs4 of
        None \<Rightarrow> None
      | Some cs5 \<Rightarrow>
     (case parseJSONObject parseJSONNumber cs5 of
        None \<Rightarrow> None
      | Some (frequencyMembers, cs6) \<Rightarrow>
          if cs6 \<noteq> ascii ''}'' then None
          else
            (case (toObject codeMembers, toObject frequencyMembers) of
               (Some codes, Some frequencies) \<Rightarrow>
                 Some \<lparr>metadata_codeMap = codes, metadata_paddingBits = padding,
                       metadata_frequencyMap = frequencies\<rparr>
             | _ \<Rightarrow> None)))))))"

text \<open>\<^verbatim>\<open>JSON.parse(new TextDecoder().decode(metadataBytes))\<close> and the field reads.\<close>

definition parseMetadataBytes :: "byte list \<Rightarrow> Metadata option" where
  "parseMetadataBytes bytes = parseMetadata (textDecode bytes)"

section \<open>Notions used in the statements\<close>

fun properNode :: "HuffmanNode \<Rightarrow> bool" where
  "properNode (HuffmanNode ch f l r i) =
     (case ch of
        Some c \<Rightarrow> l = None \<and> r = None
      | None \<Rightarrow>
          (case l of None \<Rightarrow> False | Some lnode \<Rightarrow> properNode lnode) \<and>
          (case r of None \<Rightarrow> False | Some rnode \<Rightarrow> properNode rnode))"

fun leafCodes :: "HuffmanNode \<Rightarrow> (symbol \<times> string) list" where
  "leafCodes (HuffmanNode ch f l r i) =
     (case ch of
        Some c \<Rightarrow> [(c, [])]
      | None \<Rightarrow>
          (case l of None \<Rightarrow> []
           | Some lnode \<Rightarrow> map (\<lambda>(c, p). (c, CHR ''0'' # p)) (leafCodes lnode)) @
          (case r of None \<Rightarrow> []
           | Some rnode \<Rightarrow> map (\<lambda>(c, p). (c, CHR ''1'' # p)) (leafCodes rnode)))"

definition leafSymbols :: "HuffmanNode \<Rightarrow> symbol list" where
  "leafSymbols n = map fst (leafCodes n)"

definition heapSymbols :: "HuffmanNode list \<Rightarrow> symbol multiset" where
  "heapSymbols h = sum_mset (image_mset (\<lambda>n. mset (leafSymbols n)) (mset h))"

definition prefixFree :: "CodeMap \<Rightarrow> bool" where
  "prefixFree codes =
     (\<forall>(c1, s1) \<in> set codes. \<forall>(c2, s2) \<in> set codes. c1 \<noteq> c2 \<longrightarrow> \<not> prefix s1 s2)"

definition orZero :: "string \<Rightarrow> string" where
  "orZero code = (if code = [] then ''0'' else code)"

definition assign :: "string \<Rightarrow> CodeMap \<Rightarrow> symbol \<times> string \<Rightarrow> CodeMap" where
  "assign code codes cp = obj_set codes (fst cp) (orZero (code @ snd cp))"

definition binValue :: "string \<Rightarrow> nat" where
  "binValue s = foldl (\<lambda>a c. 2 * a + (if c = CHR ''1'' then 1 else 0)) 0 s"

definition binary :: "string \<Rightarrow> bool" where
  "binary s = list_all isBinaryDigit s"

definition countStep :: "FrequencyMap \<Rightarrow> symbol \<Rightarrow> FrequencyMap" where
  "countStep frequencies c =
     obj_set frequencies c ((case obj_get frequencies c of None \<Rightarrow> 0 | Some n \<Rightarrow> n) + 1)"

text \<open>The order of a binary heap laid out in an array: no node is below its parent.\<close>

definition parentIdx :: "nat \<Rightarrow> nat" where
  "parentIdx j = (j - 1) div 2"

definition heapOrdered :: "HuffmanNode list \<Rightarrow> bool" where
  "heapOrdered h = (\<forall>j \<in> {1 ..< length h}. freq (h ! parentIdx j) \<le> freq (h ! j))"

text \<open>A client of the queue: a sequence of operations, run from a given array.\<close>

datatype heapOp = Insert HuffmanNode | ExtractMin

fun runOps :: "heapOp list \<Rightarrow> HuffmanNode list \<Rightarrow> HuffmanNode list" where
  "runOps [] h = h"
| "runOps (Insert n # ops) h = runOps ops (insert_heap h n)"
| "runOps (ExtractMin # ops) h = runOps ops (snd (extractMin h))"

section \<open>The queue as a multiset\<close>

lemma mset_swap_heap: "i < length h \<Longrightarrow> j < length h \<Longrightarrow> mset (swap h i j) = mset h"
  unfolding swap_def by (metis mset_swap)

lemma mset_bubbleUp: "i < length h \<Longrightarrow> mset (bubbleUp h i) = mset h"
proof (induction h i rule: bubbleUp.induct)
  case (1 h index)
  show ?case
  proof (cases "index > 0 \<and> \<not> freq (h ! ((index - 1) div 2)) \<le> freq (h ! index)")
    case True
    have p: "(index - 1) div 2 < length h" using "1.prems" by simp
    from True "1.IH" [OF _ refl] p
    have "mset (bubbleUp (swap h ((index - 1) div 2) index) ((index - 1) div 2)) =
            mset (swap h ((index - 1) div 2) index)"
      by simp
    with True p "1.prems" show ?thesis
      by (subst bubbleUp.simps) (simp add: Let_def mset_swap_heap)
  next
    case False
    then show ?thesis by (subst bubbleUp.simps) (auto simp: Let_def)
  qed
qed

lemma mset_bubbleDown: "mset (bubbleDown h i) = mset h"
proof (induction h i rule: bubbleDown.induct)
  case (1 h index)
  show ?case
  proof (cases "smallestOf h index = index")
    case True
    then show ?thesis by (subst bubbleDown.simps) simp
  next
    case False
    then have s: "smallestOf h index < length h" by (rule smallestOf_less)
    moreover from False have "index < smallestOf h index"
      using smallestOf_cases [of h index] by auto
    ultimately have "mset (swap h (smallestOf h index) index) = mset h"
      by (simp add: mset_swap_heap)
    with False "1.IH" [OF refl False] show ?thesis
      by (subst bubbleDown.simps) (simp add: Let_def)
  qed
qed

lemma mset_insert_heap: "mset (insert_heap h n) = add_mset n (mset h)"
  by (simp add: insert_heap_def mset_bubbleUp)

lemma extractMin_empty: "extractMin [] = (None, [])"
  by (simp add: extractMin_def)

lemma extractMin_mset:
  assumes "h \<noteq> []"
  shows "\<exists>m h'. extractMin h = (Some m, h') \<and> mset h = add_mset m (mset h')"
proof (cases "length h = 1")
  case True
  then obtain x where "h = [x]" by (cases h) auto
  then show ?thesis by (simp add: extractMin_def)
next
  case False
  moreover from assms have "length h \<noteq> 0" by simp
  ultimately have len: "2 \<le> length h" by arith
  then have b: "0 < length (butlast h)" by simp
  have h: "h = butlast h @ [last h]" using assms by simp
  have "mset ((butlast h)[0 := last h]) = add_mset (last h) (mset (butlast h) - {#butlast h ! 0#})"
    using b by (simp add: mset_update)
  moreover have "butlast h ! 0 = h ! 0" using b by (simp add: nth_butlast)
  moreover have "h ! 0 \<in># mset (butlast h)" using b
    by (metis calculation(2) nth_mem set_mset_mset)
  moreover have "mset h = add_mset (last h) (mset (butlast h))"
    by (subst h) simp
  ultimately have "mset h = add_mset (h ! 0) (mset ((butlast h)[0 := last h]))"
    by simp
  with False assms show ?thesis
    by (simp add: extractMin_def Let_def mset_bubbleDown)
qed

section \<open>The shape of the tree\<close>

lemma heapSymbols_insert: "heapSymbols (insert_heap h n) = mset (leafSymbols n) + heapSymbols h"
  by (simp add: heapSymbols_def mset_insert_heap)

lemma leafSymbols_parent:
  "leafSymbols (HuffmanNode None f (Some l) (Some r) i) = leafSymbols l @ leafSymbols r"
  by (simp add: leafSymbols_def comp_def case_prod_beta)

lemma leafSymbols_leaf: "leafSymbols (HuffmanNode (Some c) f l r i) = [c]"
  by (simp add: leafSymbols_def)

lemma leafSymbols_nonempty: "properNode n \<Longrightarrow> leafSymbols n \<noteq> []"
  by (induction n rule: properNode.induct) (auto simp: leafSymbols_def split: option.splits)

lemma extractMin_two:
  assumes "1 < length heap"
  shows "\<exists>l r heap1 heap2. extractMin heap = (Some l, heap1)
           \<and> extractMin heap1 = (Some r, heap2)
           \<and> mset heap = add_mset l (add_mset r (mset heap2))"
proof -
  from assms have "heap \<noteq> []" by auto
  from extractMin_mset [OF this] obtain l heap1 where
    1: "extractMin heap = (Some l, heap1)" "mset heap = add_mset l (mset heap1)" by blast
  from 1(2) assms have "heap1 \<noteq> []"
    by (metis One_nat_def length_0_conv less_irrefl mset.simps(1) size_add_mset size_empty size_mset)
  from extractMin_mset [OF this] obtain r heap2 where
    2: "extractMin heap1 = (Some r, heap2)" "mset heap1 = add_mset r (mset heap2)" by blast
  from 1 2 show ?thesis by simp
qed

lemma mergeLoop_result:
  "\<lbrakk>\<forall>n \<in> set heap. properNode n; heap \<noteq> []\<rbrakk> \<Longrightarrow>
     \<exists>rootNode ctr'. mergeLoop heap ctr = ([rootNode], ctr') \<and> properNode rootNode
        \<and> mset (leafSymbols rootNode) = heapSymbols heap
        \<and> (1 < length heap \<longrightarrow> char rootNode = None)"
proof (induction heap ctr rule: mergeLoop.induct)
  case (1 heap ctr)
  show ?case
  proof (cases "1 < length heap")
    case False
    with "1.prems" obtain x where "heap = [x]" by (cases heap) auto
    with "1.prems" show ?thesis
      by (subst mergeLoop.simps) (simp add: size_heap_def heapSymbols_def)
  next
    case True
    from extractMin_two [OF True] obtain l r heap1 heap2 where
      e1: "extractMin heap = (Some l, heap1)" and
      e2: "extractMin heap1 = (Some r, heap2)" and
      ms: "mset heap = add_mset l (add_mset r (mset heap2))" by blast
    define i where "i = fst (generateNodeId ctr)"
    define ctr1 where "ctr1 = snd (generateNodeId ctr)"
    define parent where "parent = HuffmanNode None (freq l + freq r) (Some l) (Some r) i"
    have step: "mergeLoop heap ctr = mergeLoop (insert_heap heap2 parent) ctr1"
      using True e1 e2
      by (subst mergeLoop.simps)
         (simp add: size_heap_def Let_def parent_def i_def ctr1_def case_prod_beta)
    have sets: "set heap = insert l (insert r (set heap2))"
      using ms by (metis set_mset_add_mset_insert set_mset_mset)
    with "1.prems" have pl: "properNode l" and pr: "properNode r"
      and p2: "\<forall>n \<in> set heap2. properNode n" by auto
    then have pp: "properNode parent" by (simp add: parent_def)
    have "set (insert_heap heap2 parent) = insert parent (set heap2)"
      by (metis mset_insert_heap set_mset_add_mset_insert set_mset_mset)
    with pp p2 have all: "\<forall>n \<in> set (insert_heap heap2 parent). properNode n" by simp
    have ne: "insert_heap heap2 parent \<noteq> []"
      by (metis length_insert_heap list.size(3) nat.simps(3))
    have big: "1 < size_heap heap" using True by (simp add: size_heap_def)
    have gen: "(i, ctr1) = generateNodeId ctr" by (simp add: i_def ctr1_def)
    have par: "parent = HuffmanNode None (freq (the (Some l)) + freq (the (Some r))) (Some l) (Some r) i"
      by (simp add: parent_def)
    note "1.IH" [OF big refl e1 [symmetric] refl e2 [symmetric] refl gen par all ne]
    then obtain rootNode ctr' where
      r: "mergeLoop (insert_heap heap2 parent) ctr1 = ([rootNode], ctr')" "properNode rootNode"
         "mset (leafSymbols rootNode) = heapSymbols (insert_heap heap2 parent)"
         "1 < length (insert_heap heap2 parent) \<longrightarrow> char rootNode = None"
      by blast
    have syms: "heapSymbols (insert_heap heap2 parent) = heapSymbols heap"
      by (simp add: heapSymbols_insert) (simp add: heapSymbols_def ms parent_def leafSymbols_parent)
    have "char rootNode = None"
    proof (cases "1 < length (insert_heap heap2 parent)")
      case True
      with r(4) show ?thesis by simp
    next
      case False
      then have "heap2 = []" by simp
      then have "insert_heap heap2 parent = [parent]"
        by (metis (no_types) length_0_conv length_Suc_conv length_insert_heap list.set_intros(1)
              mset_insert_heap set_mset_add_mset_insert set_mset_mset insert_iff list.set(1) empty_iff set_empty)
      then have "mergeLoop (insert_heap heap2 parent) ctr1 = ([parent], ctr1)"
        by (subst mergeLoop.simps) (simp add: size_heap_def)
      with r(1) show ?thesis by (simp add: parent_def)
    qed
    with step r syms show ?thesis by simp
  qed
qed

lemma insert_heap_empty: "insert_heap [] n = [n]"
  by (simp add: insert_heap_def bubbleUp.simps)

lemma insertLeaves_result:
  "\<forall>n \<in> set heap. properNode n \<Longrightarrow>
     \<exists>heap' ctr'. insertLeaves fm chars heap ctr = (heap', ctr')
        \<and> (\<forall>n \<in> set heap'. properNode n)
        \<and> length heap' = length heap + length chars
        \<and> heapSymbols heap' = heapSymbols heap + mset chars"
proof (induction chars arbitrary: heap ctr)
  case Nil
  then show ?case by simp
next
  case (Cons c chars)
  define node where "node = HuffmanNode (Some c)
       (case obj_get fm c of None \<Rightarrow> 0 | Some n \<Rightarrow> n) None None (fst (generateNodeId ctr))"
  have "set (insert_heap heap node) = insert node (set heap)"
    by (metis mset_insert_heap set_mset_add_mset_insert set_mset_mset)
  with Cons.prems have "\<forall>n \<in> set (insert_heap heap node). properNode n"
    by (simp add: node_def)
  from Cons.IH [OF this, of "snd (generateNodeId ctr)"] show ?case
    by (auto simp: case_prod_beta Let_def node_def heapSymbols_insert leafSymbols_leaf)
qed

lemma digitChar_0_1: "digitChar 0 = CHR ''0''" "digitChar 1 = CHR ''1''"
  by (code_simp, code_simp)

lemma node_ids: "toStringRadix 10 0 = ''0''" "toStringRadix 10 (Suc 0) = ''1''"
  by (code_simp, code_simp)

lemma buildHuffmanTree_empty: "buildHuffmanTree c [] = (None, 0)"
  by (simp add: buildHuffmanTree_def obj_keys_def)

lemma buildHuffmanTree_single:
  "fst (buildHuffmanTree ctr [(c, f)]) =
     Some (HuffmanNode None f (Some (HuffmanNode (Some c) f None None ''node_0'')) None ''node_1'')"
  by (simp add: buildHuffmanTree_def obj_keys_def obj_get_def generateNodeId_def
        insert_heap_empty size_heap_def extractMin_def node_ids)

lemma buildHuffmanTree_many:
  assumes "2 \<le> length fm"
  shows "\<exists>rootNode. fst (buildHuffmanTree ctr fm) = Some rootNode \<and> properNode rootNode
           \<and> char rootNode = None \<and> mset (leafSymbols rootNode) = mset (map fst fm)"
proof -
  obtain heap ctr1 where il: "insertLeaves fm (map fst fm) [] 0 = (heap, ctr1)"
    and ph: "\<forall>n \<in> set heap. properNode n" and lh: "length heap = length fm"
    and sh: "heapSymbols heap = mset (map fst fm)"
    using insertLeaves_result [of "[]" fm "map fst fm" 0] by (auto simp: heapSymbols_def)
  from lh assms have ne: "heap \<noteq> []" and big: "1 < length heap" by auto
  from mergeLoop_result [OF ph ne, of ctr1] big obtain rootNode ctr2 where
    ml: "mergeLoop heap ctr1 = ([rootNode], ctr2)" and pr: "properNode rootNode"
    and sr: "mset (leafSymbols rootNode) = heapSymbols heap" and cr: "char rootNode = None"
    by auto
  have "fst (buildHuffmanTree ctr fm) = Some rootNode"
    using assms il lh ml
    by (auto simp: buildHuffmanTree_def obj_keys_def size_heap_def extractMin_def)
  with pr sr cr sh show ?thesis by simp
qed

section \<open>Object updates\<close>

lemma keys_insertIndexKey: "fst ` set (insertIndexKey k v obj) = insert k (fst ` set obj)"
  by (induction obj) auto

lemma set_insertIndexKey: "set (insertIndexKey k v obj) = insert (k, v) (set obj)"
  by (induction obj) auto

lemma map_of_insertIndexKey:
  "k \<notin> fst ` set obj \<Longrightarrow> map_of (insertIndexKey k v obj) = (map_of obj)(k \<mapsto> v)"
  by (induction obj) (auto simp: fun_upd_twist)

lemma distinct_insertIndexKey:
  "k \<notin> fst ` set obj \<Longrightarrow> distinct (map fst obj) \<Longrightarrow> distinct (map fst (insertIndexKey k v obj))"
  by (induction obj) (auto simp: keys_insertIndexKey)

lemma map_of_replace:
  "map_of (map (\<lambda>p. if fst p = k then (k, v) else p) obj) =
     (if k \<in> fst ` set obj then (map_of obj)(k \<mapsto> v) else map_of obj)"
  by (induction obj) (auto simp: fun_upd_twist)

lemma keys_replace: "map fst (map (\<lambda>p. if fst p = k then (k, v) else p) obj) = map fst obj"
  by (induction obj) auto

lemma map_of_append_new:
  "k \<notin> fst ` set obj \<Longrightarrow> map_of (obj @ [(k, v)]) = (map_of obj)(k \<mapsto> v)"
  by (induction obj) (auto simp: fun_upd_twist)

lemma map_of_obj_set: "map_of (obj_set obj k v) = (map_of obj)(k \<mapsto> v)"
proof (cases "k \<in> fst ` set obj")
  case True
  then show ?thesis by (simp add: obj_set_def map_of_replace)
next
  case False
  then show ?thesis
    by (cases "isArrayIndex k")
       (simp_all add: obj_set_def map_of_insertIndexKey map_of_append_new del: map_of_append)
qed

lemma keys_obj_set: "fst ` set (obj_set obj k v) = insert k (fst ` set obj)"
proof (cases "k \<in> fst ` set obj")
  case True
  have "fst ` set (map (\<lambda>p. if fst p = k then (k, v) else p) obj) = set (map fst obj)"
    by (simp only: keys_replace flip: set_map)
  with True show ?thesis by (simp add: obj_set_def insert_absorb)
next
  case False
  then show ?thesis
    by (cases "isArrayIndex k") (simp_all add: obj_set_def keys_insertIndexKey)
qed

lemma distinct_obj_set: "distinct (map fst obj) \<Longrightarrow> distinct (map fst (obj_set obj k v))"
proof (cases "k \<in> fst ` set obj")
  case True
  assume "distinct (map fst obj)"
  with True show ?thesis by (simp add: obj_set_def keys_replace del: map_map)
next
  case False
  assume "distinct (map fst obj)"
  with False show ?thesis
    by (cases "isArrayIndex k") (simp_all add: obj_set_def distinct_insertIndexKey)
qed

lemma set_obj_set: "set (obj_set obj k v) \<subseteq> insert (k, v) (set obj)"
  by (auto simp: obj_set_def set_insertIndexKey split: if_splits)

section \<open>Codes and paths\<close>

lemma foldl_assign_shift:
  "foldl (assign code) codes (map (\<lambda>(c, p). (c, b # p)) cps) = foldl (assign (code @ [b])) codes cps"
  by (induction cps arbitrary: codes) (auto simp: assign_def)

lemma traverse_leafCodes: "traverse n code codes = foldl (assign code) codes (leafCodes n)"
proof (induction n code codes rule: traverse.induct)
  case (1 ch f l r i code codes)
  show ?case
  proof (cases ch)
    case (Some c)
    then show ?thesis by (simp add: assign_def orZero_def)
  next
    case None
    show ?thesis
    proof (cases l)
      case ln: None
      show ?thesis
      proof (cases r)
        case None
        with ln \<open>ch = None\<close> show ?thesis by simp
      next
        case (Some rnode)
        with ln \<open>ch = None\<close> "1.IH"(2) [OF \<open>ch = None\<close> refl Some] show ?thesis
          by (simp add: foldl_assign_shift)
      qed
    next
      case ls: (Some lnode)
      show ?thesis
      proof (cases r)
        case None
        with ls \<open>ch = None\<close> "1.IH"(1) [OF \<open>ch = None\<close> ls] show ?thesis
          by (simp add: foldl_assign_shift)
      next
        case (Some rnode)
        with ls \<open>ch = None\<close> "1.IH"(1) [OF \<open>ch = None\<close> ls]
          "1.IH"(2) [OF \<open>ch = None\<close> refl Some] show ?thesis
          by (simp add: foldl_assign_shift)
      qed
    qed
  qed
qed

lemma set_foldl_assign:
  "set (foldl (assign code) codes cps) \<subseteq>
     set codes \<union> (\<lambda>cp. (fst cp, orZero (code @ snd cp))) ` set cps"
proof (induction cps arbitrary: codes)
  case Nil
  then show ?case by simp
next
  case (Cons cp cps)
  have "set (assign code codes cp) \<subseteq> insert (fst cp, orZero (code @ snd cp)) (set codes)"
    unfolding assign_def by (rule set_obj_set)
  with Cons.IH [of "assign code codes cp"] show ?case
    by (simp only: foldl_Cons list.set image_insert) blast
qed

lemma leafCodes_internal_nonempty:
  "char n = None \<Longrightarrow> (c, p) \<in> set (leafCodes n) \<Longrightarrow> p \<noteq> []"
  by (cases n) (auto split: option.splits)

lemma leafCodes_no_prefix:
  "(c1, p1) \<in> set (leafCodes n) \<Longrightarrow> (c2, p2) \<in> set (leafCodes n) \<Longrightarrow> c1 \<noteq> c2
     \<Longrightarrow> \<not> prefix p1 p2"
proof (induction n arbitrary: p1 p2 rule: leafCodes.induct)
  case (1 ch f l r i)
  show ?case
  proof (cases ch)
    case (Some c)
    with "1.prems" show ?thesis by simp
  next
    case None
    from "1.prems"(1) None consider
      (L) lnode q where "l = Some lnode" "p1 = CHR ''0'' # q" "(c1, q) \<in> set (leafCodes lnode)"
      | (R) rnode q where "r = Some rnode" "p1 = CHR ''1'' # q" "(c1, q) \<in> set (leafCodes rnode)"
      by (auto split: option.splits)
    then show ?thesis
    proof cases
      case L
      from "1.prems"(2) None consider
        (L2) q' where "p2 = CHR ''0'' # q'" "(c2, q') \<in> set (leafCodes lnode)"
        | (R2) q' where "p2 = CHR ''1'' # q'"
        using L(1) by (auto split: option.splits)
      then show ?thesis
      proof cases
        case L2
        with "1.IH"(1) [OF None L(1) L(3) L2(2) "1.prems"(3)] L show ?thesis by simp
      next
        case R2
        with L show ?thesis by simp
      qed
    next
      case R
      from "1.prems"(2) None consider
        (L2) q' where "p2 = CHR ''0'' # q'"
        | (R2) q' where "p2 = CHR ''1'' # q'" "(c2, q') \<in> set (leafCodes rnode)"
        using R(1) by (auto split: option.splits)
      then show ?thesis
      proof cases
        case L2
        with R show ?thesis by simp
      next
        case R2
        with "1.IH"(2) [OF None R(1) R(3) R2(2) "1.prems"(3)] R show ?thesis by simp
      qed
    qed
  qed
qed

lemma generateCodes_single:
  "generateCodes (Some (HuffmanNode None f (Some (HuffmanNode (Some c) g None None i)) None j)) =
     [(c, ''0'')]"
  by (simp add: generateCodes_def obj_set_def isArrayIndex_def)

lemma frequencies_cases:
  obtains "fm = []" | c f where "fm = [(c, f)]" | "2 \<le> length (fm :: FrequencyMap)"
proof (cases fm)
  case Nil
  then show ?thesis using that by simp
next
  case (Cons p ps)
  then show ?thesis using that by (cases ps; cases p) auto
qed

section \<open>The decoding loop\<close>

lemma proper_internal:
  assumes "properNode n" "char n = None"
  obtains f l r i where "n = HuffmanNode None f (Some l) (Some r) i" "properNode l" "properNode r"
  using assms by (cases n) (auto split: option.splits)

lemma decodeLoop_total:
  "properNode t \<Longrightarrow> char t = None \<Longrightarrow> properNode cur \<Longrightarrow> char cur = None
     \<Longrightarrow> \<exists>res. decodeLoop t cur bits acc = Inr res"
proof (induction bits arbitrary: cur acc)
  case Nil
  then show ?case by simp
next
  case (Cons b bits)
  from Cons.prems(3,4) obtain f l r i where
    cur: "cur = HuffmanNode None f (Some l) (Some r) i" and pl: "properNode l" and pr: "properNode r"
    by (rule proper_internal)
  define nxt where "nxt = (if b = CHR ''0'' then l else r)"
  have pn: "properNode nxt" using pl pr by (simp add: nxt_def)
  show ?case
  proof (cases "char nxt")
    case None
    from Cons.IH [OF Cons.prems(1,2) pn None, of acc] show ?thesis
      using cur None by (auto simp: nxt_def)
  next
    case (Some c)
    from Cons.IH [OF Cons.prems(1,2) Cons.prems(1,2), of "acc @ [c]"] show ?thesis
      using cur Some by (auto simp: nxt_def)
  qed
qed

lemma decodeLoop_wrapper:
  "decodeLoop t (HuffmanNode None f (Some (HuffmanNode (Some c) g None None i)) None j) bits acc =
     Inr (acc @ replicate (length bits) c)"
  by (induction bits arbitrary: acc) (simp_all add: replicate_app_Cons_same)

section \<open>Bits and bytes\<close>

lemma binValue_snoc: "binValue (s @ [c]) = 2 * binValue s + (if c = CHR ''1'' then 1 else 0)"
  by (simp add: binValue_def)

lemma binary_append [simp]: "binary (s @ t) = (binary s \<and> binary t)"
  by (simp add: binary_def)

lemma parseInt2_binary: "binary s \<Longrightarrow> s \<noteq> [] \<Longrightarrow> parseInt2 s = Some (binValue s)"
proof -
  assume "binary s" and "s \<noteq> []"
  then have tw: "takeWhile isBinaryDigit s = s"
    by (simp add: binary_def list_all_iff)
  show ?thesis
    unfolding parseInt2_def binValue_def Let_def tw using \<open>s \<noteq> []\<close> by simp
qed

lemma binValue_less: "binValue s < 2 ^ length s"
  by (induction s rule: rev_induct) (simp_all add: binValue_snoc binValue_def)

lemma digitChar_0: "digitChar 0 = CHR ''0''"
  by code_simp

lemma digitChar_1: "digitChar (Suc 0) = CHR ''1''"
  by code_simp

lemma toStringRadix_2_small: "n < 2 \<Longrightarrow> toStringRadix 2 n = [digitChar n]"
  by (subst toStringRadix.simps) simp

lemma toStringRadix_2_big:
  "2 \<le> n \<Longrightarrow> toStringRadix 2 n = toStringRadix 2 (n div 2) @ [digitChar (n mod 2)]"
  by (subst toStringRadix.simps) simp

lemma padStart_snoc: "padStart (Suc k) c (s @ [x]) = padStart k c s @ [x]"
  by (simp add: padStart_def)

lemma toStringRadix_binValue:
  "binary s \<Longrightarrow> s \<noteq> [] \<Longrightarrow> padStart (length s) CHR ''0'' (toStringRadix 2 (binValue s)) = s"
proof (induction s rule: rev_induct)
  case Nil
  then show ?case by simp
next
  case (snoc c s)
  from snoc.prems have c: "c = CHR ''0'' \<or> c = CHR ''1''" and bs: "binary s"
    by (simp_all add: binary_def isBinaryDigit_def)
  define d :: nat where "d = (if c = CHR ''1'' then 1 else 0)"
  have dc: "digitChar d = c" using c by (auto simp: d_def digitChar_0 digitChar_1)
  have v: "binValue (s @ [c]) = 2 * binValue s + d" by (simp add: binValue_snoc d_def)
  have d2: "d < 2" by (simp add: d_def)
  show ?case
  proof (cases "s = []")
    case True
    then show ?thesis using c
      by (auto simp: binValue_def toStringRadix_2_small padStart_def digitChar_0 digitChar_1)
  next
    case False
    note IH = snoc.IH [OF bs False]
    show ?thesis
    proof (cases "binValue s = 0")
      case True
      with IH have "padStart (length s) CHR ''0'' ''0'' = s"
        by (simp add: toStringRadix_2_small digitChar_0)
      then have "replicate (length s - 1) CHR ''0'' @ ''0'' = s" by (simp add: padStart_def)
      moreover have "replicate (length s - 1) CHR ''0'' @ ''0'' = replicate (length s) CHR ''0''"
        using False by (metis One_nat_def Suc_pred length_greater_0_conv replicate_Suc replicate_append_same)
      ultimately have "s = replicate (length s) CHR ''0''" by simp
      then show ?thesis using True dc d2
        by (simp add: v toStringRadix_2_small padStart_def)
    next
      case nz: False
      then have big: "2 \<le> 2 * binValue s + d" by simp
      have "(2 * binValue s + d) div 2 = binValue s" "(2 * binValue s + d) mod 2 = d"
        using d2 by simp_all
      with toStringRadix_2_big [OF big]
      have "toStringRadix 2 (binValue (s @ [c])) = toStringRadix 2 (binValue s) @ [c]"
        by (simp add: v dc)
      with IH show ?thesis by (simp add: padStart_snoc)
    qed
  qed
qed

lemma byte_roundtrip:
  assumes "binary a" "length a = 8"
  shows "padStart 8 CHR ''0'' (toStringRadix 2 (unat (toUint8 (parseInt2 a)))) = a"
proof -
  from assms have ne: "a \<noteq> []" by auto
  have "binValue a < 256" using binValue_less [of a] assms by simp
  then have "unat (of_nat (binValue a) :: byte) = binValue a"
    by (simp add: unat_of_nat)
  with toStringRadix_binValue [OF assms(1) ne] assms(2) parseInt2_binary [OF assms(1) ne]
  show ?thesis by (simp add: toUint8_def)
qed

lemma packBytes_Cons:
  assumes "length a = 8"
  shows "packBytes (a @ s) = toUint8 (parseInt2 a) # packBytes s"
proof -
  have "(length a + length s) div 8 = Suc (length s div 8)" using assms by simp
  then show ?thesis using assms
    by (simp add: packBytes_def map_upt_Suc slice_def del: upt_Suc)
qed

lemma packBytes_Nil: "packBytes [] = []"
  by (simp add: packBytes_def)

lemma pack_unpack:
  "binary s \<Longrightarrow> length s = 8 * n \<Longrightarrow> bytesToBinaryString (packBytes s) = s"
proof (induction n arbitrary: s)
  case 0
  then show ?case by (simp add: packBytes_Nil bytesToBinaryString_def)
next
  case (Suc n)
  define a where "a = take 8 s"
  define r where "r = drop 8 s"
  have s: "s = a @ r" by (simp add: a_def r_def)
  have la: "length a = 8" using Suc.prems by (simp add: a_def)
  have lr: "length r = 8 * n" using Suc.prems by (simp add: r_def)
  from Suc.prems(1) s have ba: "binary a" and br: "binary r" by (metis binary_append)+
  from Suc.IH [OF br lr] byte_roundtrip [OF ba la]
  have "bytesToBinaryString (packBytes (a @ r)) = a @ r"
    by (simp add: packBytes_Cons [OF la] bytesToBinaryString_def)
  then show ?case by (simp only: s [symmetric])
qed

lemma length_packBytes: "length (packBytes s) = length s div 8"
  by (simp add: packBytes_def)

section \<open>Encoding and decoding a text\<close>

lemma calculateFrequencies_foldl: "calculateFrequencies str = foldl countStep [] str"
proof -
  have "countStep = (\<lambda>frequencies c.
          obj_set frequencies c ((case obj_get frequencies c of None \<Rightarrow> 0 | Some n \<Rightarrow> n) + 1))"
    by (intro ext) (simp only: countStep_def)
  then show ?thesis by (simp only: calculateFrequencies_def)
qed

lemma foldl_countStep:
  "distinct (map fst acc) \<Longrightarrow>
     distinct (map fst (foldl countStep acc str))
     \<and> fst ` set (foldl countStep acc str) = fst ` set acc \<union> set str"
proof (induction str arbitrary: acc)
  case Nil
  then show ?case by simp
next
  case (Cons c str)
  have "distinct (map fst (countStep acc c))"
    unfolding countStep_def using Cons.prems by (rule distinct_obj_set)
  from Cons.IH [OF this] show ?case
    by (simp add: countStep_def keys_obj_set)
qed

lemma calculateFrequencies_keys:
  "distinct (map fst (calculateFrequencies str))"
  "fst ` set (calculateFrequencies str) = set str"
  using foldl_countStep [of "[]" str] by (simp_all add: calculateFrequencies_foldl)

lemma map_of_foldl_assign_other:
  "c \<notin> fst ` set cps \<Longrightarrow> map_of (foldl (assign code) codes cps) c = map_of codes c"
  by (induction cps arbitrary: codes) (simp_all add: assign_def map_of_obj_set)

lemma map_of_foldl_assign:
  "distinct (map fst cps) \<Longrightarrow> (c, p) \<in> set cps \<Longrightarrow>
     map_of (foldl (assign code) codes cps) c = Some (orZero (code @ p))"
proof (induction cps arbitrary: codes)
  case Nil
  then show ?case by simp
next
  case (Cons cp cps)
  show ?case
  proof (cases "cp = (c, p)")
    case True
    with Cons.prems(1) have "c \<notin> fst ` set cps" by auto
    then have "map_of (foldl (assign code) (assign code codes cp) cps) c =
                 map_of (assign code codes cp) c"
      by (rule map_of_foldl_assign_other)
    also have "\<dots> = Some (orZero (code @ p))"
      using True by (simp add: assign_def map_of_obj_set)
    finally show ?thesis by simp
  next
    case False
    with Cons.prems have "distinct (map fst cps)" "(c, p) \<in> set cps" by auto
    from Cons.IH [OF this] show ?thesis by simp
  qed
qed

lemma generateCodes_lookup:
  assumes "distinct (leafSymbols t)" "(c, p) \<in> set (leafCodes t)"
  shows "obj_get (generateCodes (Some t)) c = Some (orZero p)"
  using map_of_foldl_assign [of "leafCodes t" c p "[]" "[]"] assms
  by (simp add: generateCodes_def obj_get_def traverse_leafCodes leafSymbols_def)

lemma decodeLoop_path:
  "properNode n \<Longrightarrow> char n = None \<Longrightarrow> (c, p) \<in> set (leafCodes n)
     \<Longrightarrow> decodeLoop t n (p @ bits) acc = decodeLoop t t bits (acc @ [c])"
proof (induction n arbitrary: p rule: properNode.induct)
  case (1 ch f l r i)
  from "1.prems"(1,2) obtain lnode rnode where
    ch: "ch = None" and l: "l = Some lnode" and r: "r = Some rnode"
    and pl: "properNode lnode" and pr: "properNode rnode"
    by (auto split: option.splits)
  from "1.prems"(3) ch l r consider
    (L) q where "p = CHR ''0'' # q" "(c, q) \<in> set (leafCodes lnode)"
    | (R) q where "p = CHR ''1'' # q" "(c, q) \<in> set (leafCodes rnode)"
    by auto
  then show ?case
  proof cases
    case L
    show ?thesis
    proof (cases "char lnode")
      case None
      from "1.IH"(1) [OF ch l pl None L(2)] show ?thesis
        using ch l r L(1) None by simp
    next
      case (Some c')
      with L(2) have "c' = c" "q = []" by (cases lnode; auto)+
      with Some show ?thesis using ch l r L(1) by simp
    qed
  next
    case R
    show ?thesis
    proof (cases "char rnode")
      case None
      from "1.IH"(2) [OF ch r pr None R(2)] show ?thesis
        using ch l r R(1) None by simp
    next
      case (Some c')
      with R(2) have "c' = c" "q = []" by (cases rnode; auto)+
      with Some show ?thesis using ch l r R(1) by simp
    qed
  qed
qed

lemma decodeLoop_text:
  assumes "properNode t" "char t = None"
    and "\<And>c. c \<in> set str \<Longrightarrow> (c, code c) \<in> set (leafCodes t)"
  shows "decodeLoop t t (concat (map code str)) acc = Inr (acc @ str)"
  using assms(3)
proof (induction str arbitrary: acc)
  case Nil
  then show ?case by simp
next
  case (Cons c str)
  from Cons.prems have "(c, code c) \<in> set (leafCodes t)" by simp
  from decodeLoop_path [OF assms(1,2) this, of t "concat (map code str)" acc]
    Cons.IH [of "acc @ [c]"] Cons.prems
  show ?case by simp
qed

lemma binary_replicate_0 [simp]: "binary (replicate n CHR ''0'')"
  by (simp add: binary_def isBinaryDigit_def list_all_iff)

lemma binary_Nil [simp]: "binary []"
  by (simp add: binary_def)

lemma binary_concat: "(\<And>x. x \<in> set xs \<Longrightarrow> binary (f x)) \<Longrightarrow> binary (concat (map f xs))"
  by (induction xs) simp_all

lemma leafCodes_binary: "(c, p) \<in> set (leafCodes n) \<Longrightarrow> binary p"
proof (induction n arbitrary: p rule: leafCodes.induct)
  case (1 ch f l r i)
  show ?case
  proof (cases ch)
    case (Some a)
    with "1.prems" show ?thesis by (simp add: binary_def)
  next
    case None
    from "1.prems" None consider
      (L) lnode q where "l = Some lnode" "p = CHR ''0'' # q" "(c, q) \<in> set (leafCodes lnode)"
      | (R) rnode q where "r = Some rnode" "p = CHR ''1'' # q" "(c, q) \<in> set (leafCodes rnode)"
      by (auto split: option.splits)
    then show ?thesis
    proof cases
      case L
      from "1.IH"(1) [OF None L(1) L(3)] L(2) show ?thesis
        by (simp add: binary_def isBinaryDigit_def)
    next
      case R
      from "1.IH"(2) [OF None R(1) R(3)] R(2) show ?thesis
        by (simp add: binary_def isBinaryDigit_def)
    qed
  qed
qed

text \<open>What the encoder produces and what the decoding loop makes of it.\<close>

lemma encode_decode:
  fixes c :: nat and str :: "symbol list"
  assumes "str \<noteq> []"
  defines "t \<equiv> fst (buildHuffmanTree c (calculateFrequencies str))"
  defines "bits \<equiv> encodeText (generateCodes t) str"
  shows "\<exists>rootNode. t = Some rootNode \<and> binary bits \<and> bits \<noteq> []
           \<and> decodeLoop rootNode rootNode bits [] = Inr str"
proof (cases "calculateFrequencies str" rule: frequencies_cases)
  case 1
  with calculateFrequencies_keys(2) [of str] assms(1) show ?thesis by simp
next
  case (2 k f)
  with calculateFrequencies_keys(2) [of str] have "set str = {k}" by simp
  then have all: "\<forall>y \<in> set str. y = k" by simp
  then have str: "replicate (length str) k = str" by (rule replicate_length_same)
  have t: "t = Some (HuffmanNode None f (Some (HuffmanNode (Some k) f None None ''node_0'')) None ''node_1'')"
    by (simp add: t_def 2 buildHuffmanTree_single)
  have "map (\<lambda>c. case obj_get [(k, ''0'')] c of None \<Rightarrow> ''undefined'' | Some code \<Rightarrow> code) str =
          map (\<lambda>c. ''0'') str"
    using all by (intro map_cong) (simp_all add: obj_get_def)
  then have "bits = concat (map (\<lambda>c. ''0'') str)"
    by (simp only: bits_def t generateCodes_single encodeText_def)
  also have "\<dots> = replicate (length str) CHR ''0''"
    by (induction str) simp_all
  finally have bits: "bits = replicate (length str) CHR ''0''" .
  with assms(1) str show ?thesis
    by (simp add: t decodeLoop_wrapper)
next
  case 3
  from buildHuffmanTree_many [OF 3, of c] obtain rootNode where
    t: "t = Some rootNode" and pr: "properNode rootNode" and ch: "char rootNode = None"
    and ms: "mset (leafSymbols rootNode) = mset (map fst (calculateFrequencies str))"
    unfolding t_def by blast
  from ms calculateFrequencies_keys(1) [of str] have dist: "distinct (leafSymbols rootNode)"
    by (metis mset_eq_imp_distinct_iff)
  from ms have "set (leafSymbols rootNode) = set (map fst (calculateFrequencies str))"
    by (rule mset_eq_setD)
  with calculateFrequencies_keys(2) [of str] have syms: "set (leafSymbols rootNode) = set str"
    by simp
  define code where "code c = the (map_of (leafCodes rootNode) c)" for c
  have mem: "(c, code c) \<in> set (leafCodes rootNode)" if "c \<in> set str" for c
  proof -
    from that syms have "c \<in> fst ` set (leafCodes rootNode)" by (simp add: leafSymbols_def)
    then obtain p where "map_of (leafCodes rootNode) c = Some p"
      by (metis map_of_eq_None_iff not_Some_eq)
    then show ?thesis by (simp add: code_def map_of_SomeD)
  qed
  have ne: "code c \<noteq> []" if "c \<in> set str" for c
    using leafCodes_internal_nonempty [OF ch mem [OF that]] .
  have look: "obj_get (generateCodes t) c = Some (code c)" if "c \<in> set str" for c
    using generateCodes_lookup [OF dist mem [OF that]] ne [OF that] by (simp add: t orZero_def)
  have "map (\<lambda>c. case obj_get (generateCodes t) c of None \<Rightarrow> ''undefined'' | Some code \<Rightarrow> code) str =
          map code str"
    by (intro map_cong) (simp_all add: look)
  then have bits: "bits = concat (map code str)" by (simp only: bits_def encodeText_def)
  have "binary bits" unfolding bits using mem leafCodes_binary by (intro binary_concat) blast
  moreover have "bits \<noteq> []" using assms(1) ne unfolding bits by (cases str) auto
  moreover have "decodeLoop rootNode rootNode bits [] = Inr str"
    unfolding bits using decodeLoop_text [OF pr ch mem, of str "[]"] by simp
  ultimately show ?thesis using t by simp
qed

lemma compress_tree:
  "str \<noteq> [] \<Longrightarrow> tree (fst (compress c str)) = fst (buildHuffmanTree c (calculateFrequencies str))"
  by (simp add: compress_def Let_def case_prod_beta)

lemma compress_codeMap:
  "str \<noteq> [] \<Longrightarrow> codeMap (fst (compress c str)) =
     generateCodes (fst (buildHuffmanTree c (calculateFrequencies str)))"
  by (simp add: compress_def Let_def case_prod_beta)

lemma compress_frequencyMap:
  "str \<noteq> [] \<Longrightarrow> frequencyMap (fst (compress c str)) = calculateFrequencies str"
  by (simp add: compress_def Let_def case_prod_beta)

lemma compress_paddingBits:
  "str \<noteq> [] \<Longrightarrow> paddingBits (fst (compress c str)) =
     (8 - length (encodeText (generateCodes (fst (buildHuffmanTree c (calculateFrequencies str)))) str) mod 8) mod 8"
  by (simp add: compress_def Let_def case_prod_beta)

lemma compress_compressedData:
  "str \<noteq> [] \<Longrightarrow> compressedData (fst (compress c str)) =
     packBytes (encodeText (generateCodes (fst (buildHuffmanTree c (calculateFrequencies str)))) str
        @ replicate ((8 - length (encodeText (generateCodes (fst (buildHuffmanTree c (calculateFrequencies str)))) str) mod 8) mod 8) CHR ''0'')"
  by (simp add: compress_def Let_def case_prod_beta padEnd_def)

lemma padding_fills: "(n + (8 - n mod 8) mod 8) mod 8 = (0::nat)"
proof -
  define r where "r = n mod 8"
  have r: "r < 8" by (simp add: r_def)
  have "(r + (8 - r) mod 8) mod 8 = 0"
  proof (cases "r = 0")
    case True
    then show ?thesis by simp
  next
    case False
    with r have "(8 - r) mod 8 = 8 - r" by simp
    with r show ?thesis by simp
  qed
  moreover have "(n + (8 - r) mod 8) mod 8 = (n mod 8 + (8 - r) mod 8) mod 8"
    by (simp add: mod_add_left_eq)
  ultimately show ?thesis by (simp add: r_def)
qed

section \<open>The heap order\<close>

lemma parentIdx_less: "0 < j \<Longrightarrow> parentIdx j < j"
  by (simp add: parentIdx_def)

lemma parentIdx_child: "0 < j \<Longrightarrow> parentIdx j = i \<longleftrightarrow> j = 2 * i + 1 \<or> j = 2 * i + 2"
  by (simp add: parentIdx_def) arith

lemma nth_swap:
  "a < length h \<Longrightarrow> b < length h \<Longrightarrow> k < length h \<Longrightarrow>
     swap h a b ! k = (if k = b then h ! a else if k = a then h ! b else h ! k)"
  by (simp add: swap_def nth_list_update)

lemma bubbleUp_ordered:
  "\<lbrakk>i < length h;
    \<forall>j. 0 < j \<and> j < length h \<and> j \<noteq> i \<longrightarrow> freq (h ! parentIdx j) \<le> freq (h ! j);
    \<forall>j. 0 < j \<and> j < length h \<and> parentIdx j = i \<and> 0 < i \<longrightarrow>
          freq (h ! parentIdx i) \<le> freq (h ! j)\<rbrakk>
   \<Longrightarrow> heapOrdered (bubbleUp h i)"
proof (induction h i rule: bubbleUp.induct)
  case (1 h i)
  note A = "1.prems"(2) and B = "1.prems"(3) and len = "1.prems"(1)
  define p where "p = parentIdx i"
  show ?case
  proof (cases "0 < i \<and> \<not> freq (h ! p) \<le> freq (h ! i)")
    case False
    then have "bubbleUp h i = h"
      by (subst bubbleUp.simps) (auto simp: Let_def p_def parentIdx_def)
    moreover have "heapOrdered h"
      unfolding heapOrdered_def
    proof
      fix j assume "j \<in> {1 ..< length h}"
      then have j: "0 < j" "j < length h" by auto
      show "freq (h ! parentIdx j) \<le> freq (h ! j)"
      proof (cases "j = i")
        case True
        with False j show ?thesis by (simp add: p_def)
      next
        case ne: False
        with A j show ?thesis by simp
      qed
    qed
    ultimately show ?thesis by simp
  next
    case True
    then have i0: "0 < i" and lt: "freq (h ! i) < freq (h ! p)" by auto
    have pi: "p < i" using i0 by (simp add: p_def parentIdx_less)
    then have plen: "p < length h" using len by simp
    define h' where "h' = swap h p i"
    have nth: "h' ! k = (if k = i then h ! p else if k = p then h ! i else h ! k)"
      if "k < length h" for k
      unfolding h'_def using nth_swap [OF plen len that] .
    have step: "bubbleUp h i = bubbleUp h' p"
      using True by (subst bubbleUp.simps) (simp add: Let_def p_def parentIdx_def h'_def)
    have A': "\<forall>j. 0 < j \<and> j < length h' \<and> j \<noteq> p \<longrightarrow> freq (h' ! parentIdx j) \<le> freq (h' ! j)"
    proof (intro allI impI)
      fix j assume "0 < j \<and> j < length h' \<and> j \<noteq> p"
      then have j: "0 < j" "j < length h" "j \<noteq> p" by (simp_all add: h'_def)
      have pj: "parentIdx j < length h" using parentIdx_less [OF j(1)] j(2) by simp
      show "freq (h' ! parentIdx j) \<le> freq (h' ! j)"
      proof (cases "j = i")
        case True
        with lt show ?thesis by (simp add: nth len plen p_def [symmetric])
      next
        case ji: False
        then have Aj: "freq (h ! parentIdx j) \<le> freq (h ! j)" using A j by simp
        consider "parentIdx j = p" | "parentIdx j = i" | "parentIdx j \<noteq> p" "parentIdx j \<noteq> i"
          by blast
        then show ?thesis
        proof cases
          case 1
          with Aj lt ji j pi show ?thesis by (simp add: nth plen)
        next
          case 2
          with B j i0 have "freq (h ! p) \<le> freq (h ! j)" by (simp add: p_def)
          with 2 ji j show ?thesis by (simp add: nth len)
        next
          case 3
          with Aj ji j pj show ?thesis by (simp add: nth)
        qed
      qed
    qed
    have B': "\<forall>j. 0 < j \<and> j < length h' \<and> parentIdx j = p \<and> 0 < p \<longrightarrow>
                freq (h' ! parentIdx p) \<le> freq (h' ! j)"
    proof (intro allI impI)
      fix j assume "0 < j \<and> j < length h' \<and> parentIdx j = p \<and> 0 < p"
      then have j: "0 < j" "j < length h" "parentIdx j = p" "0 < p" by (simp_all add: h'_def)
      have pp: "parentIdx p < p" using j(4) by (rule parentIdx_less)
      then have ppn: "h' ! parentIdx p = h ! parentIdx p" using pi plen by (simp add: nth)
      have Ap: "freq (h ! parentIdx p) \<le> freq (h ! p)" using A j(4) plen pi by simp
      have jp: "j \<noteq> p" using parentIdx_less [OF j(1)] j(3) by simp
      show "freq (h' ! parentIdx p) \<le> freq (h' ! j)"
      proof (cases "j = i")
        case True
        with Ap ppn show ?thesis by (simp add: nth len)
      next
        case False
        with A j have "freq (h ! p) \<le> freq (h ! j)" by auto
        with Ap ppn False jp j show ?thesis by (simp add: nth)
      qed
    qed
    have pl': "p < length (swap h p i)" using plen by simp
    have pdef: "p = (i - 1) div 2" by (simp add: p_def parentIdx_def)
    have nle: "\<not> freq (h ! p) \<le> freq (h ! i)" using lt by simp
    from "1.IH" [OF i0 pdef nle pl' A' [unfolded h'_def] B' [unfolded h'_def]]
    have "heapOrdered (bubbleUp h' p)" by (simp add: h'_def)
    with step show ?thesis by simp
  qed
qed

lemma smallestOf_least:
  "freq (h ! smallestOf h i) \<le> freq (h ! i)"
  "2 * i + 1 < length h \<Longrightarrow> freq (h ! smallestOf h i) \<le> freq (h ! (2 * i + 1))"
  "2 * i + 2 < length h \<Longrightarrow> freq (h ! smallestOf h i) \<le> freq (h ! (2 * i + 2))"
  by (auto simp: smallestOf_def Let_def)

lemma smallestOf_strict: "smallestOf h i \<noteq> i \<Longrightarrow> freq (h ! smallestOf h i) < freq (h ! i)"
  by (auto simp: smallestOf_def Let_def split: if_splits)

lemma smallestOf_child: "smallestOf h i \<noteq> i \<Longrightarrow> parentIdx (smallestOf h i) = i"
  using smallestOf_cases [of h i] by (auto simp: parentIdx_def)

lemma bubbleDown_ordered:
  "\<lbrakk>\<forall>j. 0 < j \<and> j < length h \<and> parentIdx j \<noteq> i \<longrightarrow> freq (h ! parentIdx j) \<le> freq (h ! j);
    \<forall>j. 0 < j \<and> j < length h \<and> parentIdx j = i \<and> 0 < i \<longrightarrow>
          freq (h ! parentIdx i) \<le> freq (h ! j)\<rbrakk>
   \<Longrightarrow> heapOrdered (bubbleDown h i)"
proof (induction h i rule: bubbleDown.induct)
  case (1 h i)
  note A = "1.prems"(1) and B = "1.prems"(2)
  define s where "s = smallestOf h i"
  have child: "freq (h ! s) \<le> freq (h ! j)" if "0 < j" "j < length h" "parentIdx j = i" for j
  proof -
    from that(1,3) have "j = 2 * i + 1 \<or> j = 2 * i + 2" by (simp add: parentIdx_child)
    with that(2) smallestOf_least(2,3) [of i h] show ?thesis by (auto simp: s_def)
  qed
  show ?case
  proof (cases "s = i")
    case True
    then have "bubbleDown h i = h" by (subst bubbleDown.simps) (simp add: s_def)
    moreover have "heapOrdered h"
      unfolding heapOrdered_def
    proof
      fix j assume "j \<in> {1 ..< length h}"
      then have j: "0 < j" "j < length h" by auto
      show "freq (h ! parentIdx j) \<le> freq (h ! j)"
      proof (cases "parentIdx j = i")
        case pj: True
        from child [OF j pj] True pj show ?thesis by simp
      next
        case False
        with A j show ?thesis by simp
      qed
    qed
    ultimately show ?thesis by simp
  next
    case False
    then have ne: "smallestOf h i \<noteq> i" by (simp add: s_def)
    have slen: "s < length h" using smallestOf_less [OF ne] by (simp add: s_def)
    have ps: "parentIdx s = i" using smallestOf_child [OF ne] by (simp add: s_def)
    have lt: "freq (h ! s) < freq (h ! i)" using smallestOf_strict [OF ne] by (simp add: s_def)
    have i_s: "i < s" using smallestOf_cases [of h i] ne by (auto simp: s_def)
    then have ilen: "i < length h" and s0: "0 < s" using slen by simp_all
    define h' where "h' = swap h s i"
    have nth: "h' ! k = (if k = i then h ! s else if k = s then h ! i else h ! k)"
      if "k < length h" for k
      unfolding h'_def using nth_swap [OF slen ilen that] .
    have step: "bubbleDown h i = bubbleDown h' s"
      using False by (subst bubbleDown.simps) (simp add: Let_def s_def h'_def)
    have A': "\<forall>j. 0 < j \<and> j < length h' \<and> parentIdx j \<noteq> s \<longrightarrow>
                freq (h' ! parentIdx j) \<le> freq (h' ! j)"
    proof (intro allI impI)
      fix j assume "0 < j \<and> j < length h' \<and> parentIdx j \<noteq> s"
      then have j: "0 < j" "j < length h" "parentIdx j \<noteq> s" by (simp_all add: h'_def)
      have pjl: "parentIdx j < j" using j(1) by (rule parentIdx_less)
      then have pj: "parentIdx j < length h" using j(2) by simp
      show "freq (h' ! parentIdx j) \<le> freq (h' ! j)"
      proof (cases "parentIdx j = i")
        case True
        then have ji: "j \<noteq> i" using pjl by simp
        show ?thesis
        proof (cases "j = s")
          case js: True
          with True lt ji show ?thesis by (simp add: nth ilen slen)
        next
          case js: False
          from child [OF j(1,2) True] True ji js j show ?thesis by (simp add: nth ilen)
        qed
      next
        case False
        note pji = False
        show ?thesis
        proof (cases "j = i")
          case True
          then have i0: "0 < i" using j by simp
          with B s0 slen ps have "freq (h ! parentIdx i) \<le> freq (h ! s)" by simp
          with True pji j(3) pj show ?thesis by (simp add: nth ilen)
        next
          case False
          moreover have "j \<noteq> s" using pji ps by auto
          moreover have "freq (h ! parentIdx j) \<le> freq (h ! j)" using A j pji by simp
          ultimately show ?thesis using pji j pj by (simp add: nth)
        qed
      qed
    qed
    have B': "\<forall>j. 0 < j \<and> j < length h' \<and> parentIdx j = s \<and> 0 < s \<longrightarrow>
                freq (h' ! parentIdx s) \<le> freq (h' ! j)"
    proof (intro allI impI)
      fix j assume "0 < j \<and> j < length h' \<and> parentIdx j = s \<and> 0 < s"
      then have j: "0 < j" "j < length h" "parentIdx j = s" by (simp_all add: h'_def)
      have sj: "s < j" using parentIdx_less [OF j(1)] j(3) by simp
      from A j i_s have "freq (h ! s) \<le> freq (h ! j)" by auto
      with sj i_s j show "freq (h' ! parentIdx s) \<le> freq (h' ! j)"
        by (simp add: nth ps ilen)
    qed
    have sdef: "s = smallestOf h i" by (simp add: s_def)
    from "1.IH" [OF sdef False A' [unfolded h'_def] B' [unfolded h'_def]]
    have "heapOrdered (bubbleDown h' s)" by (simp add: h'_def)
    with step show ?thesis by simp
  qed
qed

lemma heapOrdered_insert: "heapOrdered h \<Longrightarrow> heapOrdered (insert_heap h n)"
proof -
  assume ord: "heapOrdered h"
  define g where "g = h @ [n]"
  have A: "\<forall>j. 0 < j \<and> j < length g \<and> j \<noteq> length h \<longrightarrow> freq (g ! parentIdx j) \<le> freq (g ! j)"
  proof (intro allI impI)
    fix j assume "0 < j \<and> j < length g \<and> j \<noteq> length h"
    then have j: "0 < j" "j < length h" by (simp_all add: g_def)
    then have "parentIdx j < length h" using parentIdx_less [OF j(1)] by simp
    with j ord show "freq (g ! parentIdx j) \<le> freq (g ! j)"
      by (simp add: g_def nth_append heapOrdered_def)
  qed
  have B: "\<forall>j. 0 < j \<and> j < length g \<and> parentIdx j = length h \<and> 0 < length h \<longrightarrow>
             freq (g ! parentIdx (length h)) \<le> freq (g ! j)"
  proof (intro allI impI)
    fix j assume a: "0 < j \<and> j < length g \<and> parentIdx j = length h \<and> 0 < length h"
    then have "0 < j" by simp
    then have "parentIdx j < j" by (rule parentIdx_less)
    with a have False by (simp add: g_def)
    then show "freq (g ! parentIdx (length h)) \<le> freq (g ! j)" ..
  qed
  have "length h < length g" by (simp add: g_def)
  from bubbleUp_ordered [OF this A B] show ?thesis
    by (simp add: insert_heap_def g_def)
qed

lemma heapOrdered_extractMin: "heapOrdered h \<Longrightarrow> heapOrdered (snd (extractMin h))"
proof -
  assume ord: "heapOrdered h"
  show ?thesis
  proof (cases "length h \<le> 1")
    case True
    then show ?thesis by (auto simp: extractMin_def heapOrdered_def)
  next
    case False
    define g where "g = (butlast h)[0 := last h]"
    have lg: "length g = length h - 1" by (simp add: g_def)
    have A: "\<forall>j. 0 < j \<and> j < length g \<and> parentIdx j \<noteq> 0 \<longrightarrow> freq (g ! parentIdx j) \<le> freq (g ! j)"
    proof (intro allI impI)
      fix j assume a: "0 < j \<and> j < length g \<and> parentIdx j \<noteq> 0"
      then have j: "0 < j" "j < length h - 1" "parentIdx j \<noteq> 0" by (simp_all add: lg)
      have pj: "parentIdx j < j" using j(1) by (rule parentIdx_less)
      from j have "j \<in> {1 ..< length h}" by simp
      with ord have "freq (h ! parentIdx j) \<le> freq (h ! j)" unfolding heapOrdered_def by blast
      with j pj show "freq (g ! parentIdx j) \<le> freq (g ! j)"
        by (simp add: g_def nth_butlast)
    qed
    have B: "\<forall>j. 0 < j \<and> j < length g \<and> parentIdx j = 0 \<and> 0 < (0::nat) \<longrightarrow>
               freq (g ! parentIdx 0) \<le> freq (g ! j)"
      by simp
    from False have "h \<noteq> []" by auto
    with bubbleDown_ordered [OF A B] False show ?thesis
      by (simp add: extractMin_def Let_def g_def)
  qed
qed

lemma heapOrdered_root_least:
  "heapOrdered h \<Longrightarrow> i < length h \<Longrightarrow> freq (h ! 0) \<le> freq (h ! i)"
proof (induction i rule: less_induct)
  case (less i)
  show ?case
  proof (cases "i = 0")
    case True
    then show ?thesis by simp
  next
    case False
    then have p: "parentIdx i < i" by (simp add: parentIdx_less)
    from less.prems False have "freq (h ! parentIdx i) \<le> freq (h ! i)"
      by (simp add: heapOrdered_def)
    moreover from less.IH [OF p less.prems(1)] p less.prems(2)
    have "freq (h ! 0) \<le> freq (h ! parentIdx i)" by simp
    ultimately show ?thesis by simp
  qed
qed

lemma extractMin_root: "h \<noteq> [] \<Longrightarrow> fst (extractMin h) = Some (h ! 0)"
  by (cases h) (auto simp: extractMin_def Let_def)

lemma heapOrdered_runOps: "heapOrdered h \<Longrightarrow> heapOrdered (runOps ops h)"
  by (induction ops h rule: runOps.induct)
     (simp_all add: heapOrdered_insert heapOrdered_extractMin)

lemma heapOrdered_Nil: "heapOrdered []"
  by (simp add: heapOrdered_def)

section \<open>The frame of the container\<close>

lemma bytes_of_uint32:
  assumes "m < 4294967296"
  shows "m mod 256 + 256 * (m div 256 mod 256) + 65536 * (m div 65536 mod 256)
          + 16777216 * (m div 16777216 mod 256) = (m::nat)"
proof -
  define q1 q2 q3 where "q1 = m div 256" and "q2 = m div 65536" and "q3 = m div 16777216"
  define r0 r1 r2 where "r0 = m mod 256" and "r1 = q1 mod 256" and "r2 = q2 mod 256"
  have a: "m = r0 + 256 * q1" by (simp add: r0_def q1_def)
  have "q1 div 256 = q2" by (simp add: q1_def q2_def div_mult2_eq)
  then have b: "q1 = r1 + 256 * q2" by (simp add: r1_def) (metis mod_mult_div_eq add.commute mult.commute div_mult_mod_eq)
  have "q2 div 256 = q3" by (simp add: q2_def q3_def div_mult2_eq)
  then have c: "q2 = r2 + 256 * q3" by (simp add: r2_def) (metis mod_mult_div_eq add.commute mult.commute div_mult_mod_eq)
  have "q3 < 256" using assms unfolding q3_def by (simp add: less_mult_imp_div_less)
  then have d: "q3 mod 256 = q3" by simp
  have "r0 + 256 * r1 + 65536 * r2 + 16777216 * q3 = m"
    using a b c by simp
  then show ?thesis
    by (simp only: d r0_def [symmetric] r1_def [symmetric] r2_def [symmetric]
          q1_def [symmetric] q2_def [symmetric] q3_def [symmetric])
qed

lemma getUint32_uint32Bytes:
  "getUint32 (uint32Bytes n @ rest) = n mod 2 ^ 32"
proof -
  define m where "m = n mod 4294967296"
  have m: "m < 4294967296" by (simp add: m_def)
  have u: "unat (of_nat k :: byte) = k" if "k < 256" for k
    using that by (simp add: unat_of_nat)
  have "uint32Bytes n = [of_nat (m mod 256), of_nat (m div 256 mod 256),
          of_nat (m div 65536 mod 256), of_nat (m div 16777216 mod 256)]"
    by (simp add: uint32Bytes_def Let_def m_def)
  then have "getUint32 (uint32Bytes n @ rest) =
          m mod 256 + 256 * (m div 256 mod 256) + 65536 * (m div 65536 mod 256)
          + 16777216 * (m div 16777216 mod 256)"
    by (simp add: getUint32_def u)
  with bytes_of_uint32 [OF m] have "getUint32 (uint32Bytes n @ rest) = m" by (simp only:)
  then show ?thesis by (simp add: m_def)
qed

lemma length_uint32Bytes [simp]: "length (uint32Bytes n) = 4"
  by (simp add: uint32Bytes_def Let_def)

lemma parse_create:
  assumes "length (stringify md) < 2 ^ 32" "parse (stringify md) = Some md"
      "md = \<lparr>metadata_codeMap = codeMap r, metadata_paddingBits = paddingBits r,
             metadata_frequencyMap = frequencyMap r\<rparr>"
  shows "parseCompressedFile parse (createCompressedFile stringify r) =
           Some \<lparr>parsed_compressedData = compressedData r, parsed_codeMap = codeMap r,
                 parsed_paddingBits = paddingBits r, parsed_frequencyMap = frequencyMap r\<rparr>"
proof -
  define mb where "mb = stringify md"
  have c: "createCompressedFile stringify r = uint32Bytes (length mb) @ mb @ compressedData r"
    by (simp add: createCompressedFile_def Let_def mb_def assms(3))
  have g: "getUint32 (uint32Bytes (length mb) @ mb @ compressedData r) = length mb"
    using assms(1) by (simp add: getUint32_uint32Bytes mb_def)
  show ?thesis
    unfolding c parseCompressedFile_def g Let_def
    using assms(2) by (simp add: mb_def assms(3))
qed

section \<open>The node counter does not influence a build\<close>

lemma buildHuffmanTree_counter: "buildHuffmanTree c frequencies = buildHuffmanTree 0 frequencies"
  by (simp add: buildHuffmanTree_def)

lemma compress_counter: "text \<noteq> [] \<Longrightarrow> compress c text = compress 0 text"
  by (simp add: compress_def buildHuffmanTree_counter [of c])

section \<open>Fixtures\<close>

text \<open>
  Claim C7.  Compressing \<^verbatim>\<open>"aaaa"\<close>, whatever the node counter holds before, gives
  the code table \<open>{a: "0"}\<close> and a tree that is one leaf for \<open>a\<close> under a synthetic
  root (the leaf as left child, no right child); decompressing the packed payload with
  that tree and the padding count returns \<^verbatim>\<open>"aaaa"\<close> with success.
\<close>

theorem single_symbol_aaaa:
  "codeMap (fst (compress c (map of_char ''aaaa''))) = [(of_char CHR ''a'', ''0'')]
   \<and> tree (fst (compress c (map of_char ''aaaa''))) =
       Some (HuffmanNode None 4
               (Some (HuffmanNode (Some (of_char CHR ''a'')) 4 None None ''node_0''))
               None ''node_1'')
   \<and> decompress (compressedData (fst (compress c (map of_char ''aaaa''))))
         (tree (fst (compress c (map of_char ''aaaa''))))
         (paddingBits (fst (compress c (map of_char ''aaaa'')))) =
       Inr \<lparr>decompressedText = map of_char ''aaaa'', success = True, error = None\<rparr>"
proof -
  have "compress c (map of_char ''aaaa'') = compress 0 (map of_char ''aaaa'')"
    by (rule compress_counter) simp
  then show ?thesis
    by (simp only:) code_simp
qed

text \<open>
  Claim C8.  Compressing \<^verbatim>\<open>"aab"\<close> gives the frequencies \<open>{a: 2, b: 1}\<close>, a tree
  of two leaves under a root of frequency 3, the one-bit codes \<open>"0"\<close> for \<open>b\<close> and
  \<open>"1"\<close> for \<open>a\<close>, three encoded bits, five padding bits and one byte of payload.
\<close>

theorem known_fixture_aab:
  "frequencyMap (fst (compress c (map of_char ''aab''))) =
       [(of_char CHR ''a'', 2), (of_char CHR ''b'', 1)]
   \<and> tree (fst (compress c (map of_char ''aab''))) =
       Some (HuffmanNode None 3
               (Some (HuffmanNode (Some (of_char CHR ''b'')) 1 None None ''node_1''))
               (Some (HuffmanNode (Some (of_char CHR ''a'')) 2 None None ''node_0''))
               ''node_2'')
   \<and> codeMap (fst (compress c (map of_char ''aab''))) =
       [(of_char CHR ''b'', ''0''), (of_char CHR ''a'', ''1'')]
   \<and> length (encodeText (codeMap (fst (compress c (map of_char ''aab''))))
               (map of_char ''aab'')) = 3
   \<and> paddingBits (fst (compress c (map of_char ''aab''))) = 5
   \<and> compressedSize (fst (compress c (map of_char ''aab''))) = 1
   \<and> length (compressedData (fst (compress c (map of_char ''aab'')))) = 1"
proof -
  have "compress c (map of_char ''aab'') = compress 0 (map of_char ''aab'')"
    by (rule compress_counter) simp
  then show ?thesis
    by (simp only:) code_simp
qed

section \<open>The padding count\<close>

text \<open>
  Claim C5 as stated (the padding count is below 7) fails: the one-symbol text
  \<^verbatim>\<open>"a"\<close> is encoded in one bit and padded with seven.
\<close>

theorem paddingBits_below_7_counterexample:
  "\<not> paddingBits (fst (compress 0 (map of_char ''a''))) < 7"
  by code_simp

text \<open>
  Claim C5, amended.  For every input text and every value of the node counter, the
  padding count that \<open>compress\<close> returns is at most 7.
\<close>

theorem paddingBits_at_most_7: "paddingBits (fst (compress c text)) \<le> 7"
proof (cases "text = []")
  case True
  then show ?thesis by (simp add: compress_def)
next
  case False
  have "(8 - n mod 8) mod 8 \<le> 7" for n :: nat
    by simp
  with False show ?thesis
    by (simp add: compress_def Let_def split: prod.splits)
qed

section \<open>Ties in the queue\<close>

text \<open>
  Claim C4 as stated fails.  Three nodes of frequency 1 are inserted in the order
  \<open>a\<close>, \<open>b\<close>, \<open>c\<close>.  The first extraction returns \<open>a\<close> and leaves \<open>b\<close> and
  \<open>c\<close> in the queue; the second returns \<open>c\<close>, inserted after \<open>b\<close>.
\<close>

theorem tie_break_insertion_order_counterexample:
  "fst (extractMin
         (insert_heap
           (insert_heap (insert_heap [] (HuffmanNode (Some 97) 1 None None ''node_0''))
              (HuffmanNode (Some 98) 1 None None ''node_1''))
           (HuffmanNode (Some 99) 1 None None ''node_2''))) =
     Some (HuffmanNode (Some 97) 1 None None ''node_0'')
   \<and> set (snd (extractMin
         (insert_heap
           (insert_heap (insert_heap [] (HuffmanNode (Some 97) 1 None None ''node_0''))
              (HuffmanNode (Some 98) 1 None None ''node_1''))
           (HuffmanNode (Some 99) 1 None None ''node_2'')))) =
     {HuffmanNode (Some 98) 1 None None ''node_1'', HuffmanNode (Some 99) 1 None None ''node_2''}
   \<and> fst (extractMin (snd (extractMin
         (insert_heap
           (insert_heap (insert_heap [] (HuffmanNode (Some 97) 1 None None ''node_0''))
              (HuffmanNode (Some 98) 1 None None ''node_1''))
           (HuffmanNode (Some 99) 1 None None ''node_2''))))) =
     Some (HuffmanNode (Some 99) 1 None None ''node_2'')"
  by code_simp

text \<open>
  Claim C4, amended.  After every sequence of \<open>insert\<close> and \<open>extractMin\<close>
  operations on an empty queue that leaves it non-empty, \<open>extractMin\<close> removes and
  returns one node of the queue whose frequency is the least in the queue.  Which of
  several nodes of that frequency it returns follows from their places in the array,
  not from the order of insertion.
\<close>

theorem extractMin_least_frequency:
  assumes "runOps ops [] \<noteq> []"
  shows "\<exists>m h'. extractMin (runOps ops []) = (Some m, h')
           \<and> m \<in> set (runOps ops [])
           \<and> (\<forall>n \<in> set (runOps ops []). freq m \<le> freq n)
           \<and> mset (runOps ops []) = add_mset m (mset h')"
proof -
  define h where "h = runOps ops []"
  have ord: "heapOrdered h" unfolding h_def using heapOrdered_Nil by (rule heapOrdered_runOps)
  have ne: "h \<noteq> []" using assms by (simp add: h_def)
  from extractMin_mset [OF ne] obtain m h' where
    e: "extractMin h = (Some m, h')" and ms: "mset h = add_mset m (mset h')" by blast
  from extractMin_root [OF ne] e have m: "m = h ! 0" by simp
  have "m \<in> set h" using ne m by simp
  moreover have "\<forall>n \<in> set h. freq m \<le> freq n"
  proof
    fix n assume "n \<in> set h"
    then obtain i where "i < length h" "n = h ! i" by (metis in_set_conv_nth)
    with heapOrdered_root_least [OF ord] m show "freq m \<le> freq n" by simp
  qed
  ultimately show ?thesis using e ms unfolding h_def by blast
qed

theorem extractMin_least_frequency_witness:
  "runOps [Insert (HuffmanNode (Some 97) 1 None None ''node_0''),
           Insert (HuffmanNode (Some 98) 1 None None ''node_1''),
           Insert (HuffmanNode (Some 99) 1 None None ''node_2''), ExtractMin] [] \<noteq> []
   \<and> (\<exists>m h'. extractMin (runOps [Insert (HuffmanNode (Some 97) 1 None None ''node_0''),
           Insert (HuffmanNode (Some 98) 1 None None ''node_1''),
           Insert (HuffmanNode (Some 99) 1 None None ''node_2''), ExtractMin] []) = (Some m, h')
        \<and> m \<in> set (runOps [Insert (HuffmanNode (Some 97) 1 None None ''node_0''),
           Insert (HuffmanNode (Some 98) 1 None None ''node_1''),
           Insert (HuffmanNode (Some 99) 1 None None ''node_2''), ExtractMin] [])
        \<and> (\<forall>n \<in> set (runOps [Insert (HuffmanNode (Some 97) 1 None None ''node_0''),
           Insert (HuffmanNode (Some 98) 1 None None ''node_1''),
           Insert (HuffmanNode (Some 99) 1 None None ''node_2''), ExtractMin] []). freq m \<le> freq n)
        \<and> mset (runOps [Insert (HuffmanNode (Some 97) 1 None None ''node_0''),
           Insert (HuffmanNode (Some 98) 1 None None ''node_1''),
           Insert (HuffmanNode (Some 99) 1 None None ''node_2''), ExtractMin] []) = add_mset m (mset h'))"
proof -
  have ne: "runOps [Insert (HuffmanNode (Some 97) 1 None None ''node_0''),
           Insert (HuffmanNode (Some 98) 1 None None ''node_1''),
           Insert (HuffmanNode (Some 99) 1 None None ''node_2''), ExtractMin] [] \<noteq> []"
    by code_simp
  from extractMin_least_frequency [OF ne] ne show ?thesis by blast
qed

section \<open>Round trip\<close>

text \<open>
  Claim C1.  For every non-empty text and every value of the node counter, decompressing
  the payload of \<open>compress\<close> with the tree and the padding count it returned gives
  the text back, with \<open>success = true\<close> and no error.
\<close>

theorem compress_decompress_roundtrip:
  assumes "text \<noteq> []"
  shows "decompress (compressedData (fst (compress c text))) (tree (fst (compress c text)))
           (paddingBits (fst (compress c text))) =
         Inr \<lparr>decompressedText = text, success = True, error = None\<rparr>"
proof -
  define t where "t = fst (buildHuffmanTree c (calculateFrequencies text))"
  define bits where "bits = encodeText (generateCodes t) text"
  define pb where "pb = (8 - length bits mod 8) mod 8"
  define padded where "padded = bits @ replicate pb CHR ''0''"
  have tr: "tree (fst (compress c text)) = t"
    by (simp only: compress_tree [OF assms] t_def)
  have pbs: "paddingBits (fst (compress c text)) = pb"
    by (simp only: compress_paddingBits [OF assms] pb_def bits_def t_def)
  have dat: "compressedData (fst (compress c text)) = packBytes padded"
    by (simp only: compress_compressedData [OF assms] padded_def pb_def bits_def t_def)
  from encode_decode [OF assms, of c] obtain rootNode where
    t: "t = Some rootNode" and bin: "binary bits" and ne: "bits \<noteq> []"
    and dec: "decodeLoop rootNode rootNode bits [] = Inr text"
    unfolding t_def bits_def by blast
  have "length padded mod 8 = 0" by (simp add: padded_def pb_def padding_fills)
  then have "8 dvd length padded" by presburger
  then obtain n where n: "length padded = 8 * n" by (elim dvdE)
  have binp: "binary padded" using bin by (simp add: padded_def)
  have unpack: "bytesToBinaryString (packBytes padded) = padded"
    using binp n by (rule pack_unpack)
  have "0 < length padded" using ne by (simp add: padded_def)
  with n have "n \<noteq> 0" by (cases n) simp_all
  then have nonempty: "length (packBytes padded) \<noteq> 0"
    by (simp add: length_packBytes n)
  have strip: "(if pb > 0 then take (length padded - pb) padded else padded) = bits"
    by (simp add: padded_def)
  have "decompress (packBytes padded) (Some rootNode) pb =
          (case decodeLoop rootNode rootNode
                  (if pb > 0 then take (length padded - pb) padded else padded) [] of
             Inl e \<Rightarrow> Inl e
           | Inr result \<Rightarrow> Inr \<lparr>decompressedText = result, success = True, error = None\<rparr>)"
    using nonempty by (simp add: decompress_def Let_def unpack)
  also have "\<dots> = Inr \<lparr>decompressedText = text, success = True, error = None\<rparr>"
    unfolding strip dec by simp
  finally have "decompress (packBytes padded) (Some rootNode) pb =
      Inr \<lparr>decompressedText = text, success = True, error = None\<rparr>" .
  then show ?thesis
    unfolding tr pbs dat t .
qed

theorem compress_decompress_roundtrip_witness:
  "map of_char ''abracadabra'' \<noteq> ([] :: symbol list)
   \<and> decompress (compressedData (fst (compress 0 (map of_char ''abracadabra''))))
         (tree (fst (compress 0 (map of_char ''abracadabra''))))
         (paddingBits (fst (compress 0 (map of_char ''abracadabra'')))) =
       Inr \<lparr>decompressedText = map of_char ''abracadabra'', success = True, error = None\<rparr>
   \<and> compressedData (fst (compress 0 (map of_char ''abracadabra''))) = [105, 207, 104]"
proof -
  have ne: "map of_char ''abracadabra'' \<noteq> ([] :: symbol list)" by simp
  have "compressedData (fst (compress 0 (map of_char ''abracadabra''))) = [105, 207, 104]"
    by code_simp
  with compress_decompress_roundtrip [OF ne, of 0] ne show ?thesis by blast
qed

section \<open>Prefix-free codes\<close>

text \<open>
  Claim C2.  For every frequency table (the empty one included) and every value of the
  node counter, the code table that \<open>generateCodes\<close> produces from the tree of
  \<open>buildHuffmanTree\<close> is prefix-free: no symbol's bit string is a prefix of the bit
  string of another symbol.
\<close>

theorem generated_codes_prefix_free: "prefixFree (generateCodes (fst (buildHuffmanTree c frequencies)))"
proof (cases frequencies rule: frequencies_cases)
  case 1
  then show ?thesis by (simp add: buildHuffmanTree_empty generateCodes_def prefixFree_def)
next
  case (2 k f)
  then show ?thesis
    by (simp add: buildHuffmanTree_single generateCodes_single prefixFree_def)
next
  case 3
  from buildHuffmanTree_many [OF 3, of c] obtain rootNode where
    t: "fst (buildHuffmanTree c frequencies) = Some rootNode" and ch: "char rootNode = None"
    by blast
  have sub: "set (generateCodes (Some rootNode)) \<subseteq> set (leafCodes rootNode)"
  proof
    fix x assume "x \<in> set (generateCodes (Some rootNode))"
    then have "x \<in> (\<lambda>cp. (fst cp, orZero ([] @ snd cp))) ` set (leafCodes rootNode)"
      using set_foldl_assign [of "[]" "[]" "leafCodes rootNode"]
      by (auto simp: generateCodes_def traverse_leafCodes)
    then obtain k p where kp: "(k, p) \<in> set (leafCodes rootNode)"
      and x: "x = (k, orZero p)" by auto
    from leafCodes_internal_nonempty [OF ch kp] x kp show "x \<in> set (leafCodes rootNode)"
      by (simp add: orZero_def)
  qed
  show ?thesis
    unfolding prefixFree_def t
    using sub leafCodes_no_prefix [of _ _ rootNode] by blast
qed

theorem generated_codes_prefix_free_witness:
  "prefixFree (generateCodes (fst (buildHuffmanTree 0 [(97, 5), (98, 2), (99, 1), (100, 1)])))
   \<and> generateCodes (fst (buildHuffmanTree 0 [(97, 5), (98, 2), (99, 1), (100, 1)])) =
       [(98, ''00''), (99, ''010''), (100, ''011''), (97, ''1'')]"
proof -
  have "generateCodes (fst (buildHuffmanTree 0 [(97, 5), (98, 2), (99, 1), (100, 1)])) =
          [(98, ''00''), (99, ''010''), (100, ''011''), (97, ''1'')]"
    by code_simp
  with generated_codes_prefix_free [of 0 "[(97, 5), (98, 2), (99, 1), (100, 1)]"]
  show ?thesis by blast
qed

section \<open>Decompression does not fail\<close>

text \<open>
  Claim C9.  For every payload, every padding count and every tree that
  \<open>buildHuffmanTree\<close> returns (for any frequency table, the empty one with its absent
  tree included, and any value of the node counter), \<open>decompress\<close> returns a result
  with \<open>success = true\<close> and no error: it neither throws nor signals failure.
\<close>

theorem decompress_never_fails:
  "\<exists>text. decompress data (fst (buildHuffmanTree c frequencies)) padding =
     Inr \<lparr>decompressedText = text, success = True, error = None\<rparr>"
proof (cases frequencies rule: frequencies_cases)
  case 1
  then show ?thesis by (simp add: buildHuffmanTree_empty decompress_def)
next
  case (2 k f)
  then show ?thesis
    by (simp add: buildHuffmanTree_single decompress_def decodeLoop_wrapper Let_def)
next
  case 3
  from buildHuffmanTree_many [OF 3, of c] obtain rootNode where
    t: "fst (buildHuffmanTree c frequencies) = Some rootNode" and pr: "properNode rootNode"
    and ch: "char rootNode = None"
    by blast
  show ?thesis
  proof (cases "length data = 0")
    case True
    then show ?thesis by (simp add: t decompress_def)
  next
    case False
    define bits where "bits = (let binaryString = bytesToBinaryString data
       in if padding > 0 then take (length binaryString - padding) binaryString else binaryString)"
    from decodeLoop_total [OF pr ch pr ch, of bits "[]"] obtain res where
      "decodeLoop rootNode rootNode bits [] = Inr res" by blast
    with False show ?thesis
      by (simp add: t decompress_def bits_def Let_def)
  qed
qed

section \<open>The container\<close>

text \<open>
  Claim C6.  Let \<open>metadataLength\<close> be the number in the first four bytes of a buffer
  (of a valid container in particular).  Truncating the buffer to fewer than 4 bytes, or
  to fewer than \<open>4 + metadataLength\<close> bytes, makes \<open>parseCompressedFile\<close> return
  \<^verbatim>\<open>null\<close>, whatever the parser of the metadata would do.
\<close>

theorem truncated_container_rejected:
  assumes "n \<le> length data" and "n < 4 \<or> n < 4 + getUint32 data"
  shows "parseCompressedFile parse (take n data) = None"
proof (cases "n < 4")
  case True
  with assms(1) show ?thesis by (simp add: parseCompressedFile_def)
next
  case False
  with assms have n: "4 \<le> n" "n < 4 + getUint32 data" by auto
  then have "getUint32 (take n data) = getUint32 data"
    by (simp add: getUint32_def)
  with n assms(1) show ?thesis by (simp add: parseCompressedFile_def Let_def)
qed

theorem truncated_container_rejected_witness:
  "50 \<le> length (createCompressedFile stringifyMetadata (fst (compress 0 (ascii ''aab''))))
   \<and> 50 < 4 + getUint32 (createCompressedFile stringifyMetadata (fst (compress 0 (ascii ''aab''))))
   \<and> parseCompressedFile parseMetadataBytes
         (take 50 (createCompressedFile stringifyMetadata (fst (compress 0 (ascii ''aab''))))) = None
   \<and> parseCompressedFile parseMetadataBytes
         (createCompressedFile stringifyMetadata (fst (compress 0 (ascii ''aab'')))) =
       Some \<lparr>parsed_compressedData = [192],
              parsed_codeMap = [(98, ''0''), (97, ''1'')],
              parsed_paddingBits = 5,
              parsed_frequencyMap = [(97, 2), (98, 1)]\<rparr>"
proof -
  have len: "50 \<le> length (createCompressedFile stringifyMetadata (fst (compress 0 (ascii ''aab''))))"
    by code_simp
  have short: "50 < 4 + getUint32 (createCompressedFile stringifyMetadata (fst (compress 0 (ascii ''aab''))))"
    by code_simp
  have full: "parseCompressedFile parseMetadataBytes
         (createCompressedFile stringifyMetadata (fst (compress 0 (ascii ''aab'')))) =
       Some \<lparr>parsed_compressedData = [192],
              parsed_codeMap = [(98, ''0''), (97, ''1'')],
              parsed_paddingBits = 5,
              parsed_frequencyMap = [(97, 2), (98, 1)]\<rparr>"
    by code_simp
  from truncated_container_rejected [OF len, of parseMetadataBytes] short len full
  show ?thesis by blast
qed

end
